theory Spec2Isabelle
  imports Complex_Main "HOL-Library.Multiset"
begin

section \<open>JavaScript values and array primitives\<close>

text \<open>
  The player keeps its queue in React state of the root component \<open>App\<close>. The position
  \<open>currentSongIndex\<close> has the type \<open>number | null\<close>, and reading an array out of range
  yields \<open>undefined\<close>, so the values that flow through the handlers are integers,
  \<open>NaN\<close>, \<open>undefined\<close> and \<open>null\<close>. Indices are small integers, far below
  \<open>2^53\<close>, so the integer values of a JavaScript number are modelled by \<open>int\<close>.
\<close>

datatype jsval = JNum int | JNaN | JUndefined | JNull

text \<open>\<open>Number(v)\<close> as used by the arithmetic operators; \<open>None\<close> stands for \<open>NaN\<close>.\<close>

definition to_number :: "jsval \<Rightarrow> int option" where
  "to_number v = (case v of JNum k \<Rightarrow> Some k | JNull \<Rightarrow> Some 0 | _ \<Rightarrow> None)"

text \<open>\<open>v + n\<close> for an integer \<open>n\<close>.\<close>

definition js_add :: "jsval \<Rightarrow> int \<Rightarrow> jsval" where
  "js_add v n = (case to_number v of Some k \<Rightarrow> JNum (k + n) | None \<Rightarrow> JNaN)"

text \<open>\<open>v % n\<close>: the remainder takes the sign of the dividend, and \<open>x % 0\<close> is \<open>NaN\<close>.\<close>

definition js_rem :: "jsval \<Rightarrow> int \<Rightarrow> jsval" where
  "js_rem v n =
     (case to_number v of
        Some k \<Rightarrow> if n = 0 then JNaN else JNum (sgn k * (\<bar>k\<bar> mod \<bar>n\<bar>))
      | None \<Rightarrow> JNaN)"

text \<open>\<open>v >= n\<close> and \<open>v > n\<close>: every comparison with \<open>NaN\<close> is false.\<close>

definition js_ge :: "jsval \<Rightarrow> int \<Rightarrow> bool" where
  "js_ge v n = (case to_number v of Some k \<Rightarrow> k \<ge> n | None \<Rightarrow> False)"

definition js_gt :: "jsval \<Rightarrow> int \<Rightarrow> bool" where
  "js_gt v n = (case to_number v of Some k \<Rightarrow> k > n | None \<Rightarrow> False)"

text \<open>\<open>xs[i]\<close> on an array of numbers: \<open>undefined\<close> outside \<open>0 .. length - 1\<close>.\<close>

definition js_index :: "int list \<Rightarrow> jsval \<Rightarrow> jsval" where
  "js_index xs i =
     (case i of
        JNum k \<Rightarrow> if 0 \<le> k \<and> k < int (length xs) then JNum (xs ! nat k) else JUndefined
      | _ \<Rightarrow> JUndefined)"

text \<open>\<open>songs[i]\<close> for a numeric index; \<open>None\<close> stands for \<open>undefined\<close>.\<close>

definition js_nth :: "'a list \<Rightarrow> int \<Rightarrow> 'a option" where
  "js_nth xs k = (if 0 \<le> k \<and> k < int (length xs) then Some (xs ! nat k) else None)"

text \<open>\<open>xs.indexOf(v)\<close>: the first offset holding \<open>v\<close>, or \<open>-1\<close>.\<close>

fun indexOf_from :: "int list \<Rightarrow> int \<Rightarrow> int \<Rightarrow> int" where
  "indexOf_from [] v k = - 1"
| "indexOf_from (x # xs) v k = (if x = v then k else indexOf_from xs v (k + 1))"

definition indexOf :: "int list \<Rightarrow> jsval \<Rightarrow> int" where
  "indexOf xs v = (case v of JNum n \<Rightarrow> indexOf_from xs n 0 | _ \<Rightarrow> - 1)"

text \<open>\<open>xs.filter((_, index) => index !== d)\<close>: filtering by position.\<close>

definition filter_index :: "int \<Rightarrow> 'a list \<Rightarrow> 'a list" where
  "filter_index d xs = map snd (filter (\<lambda>(index, _). int index \<noteq> d) (enumerate 0 xs))"

text \<open>\<open>x || d\<close> on numbers: \<open>0\<close> is falsy.\<close>

definition js_or :: "real \<Rightarrow> real \<Rightarrow> real" where
  "js_or x d = (if x = 0 then d else x)"

section \<open>Application state\<close>

text \<open>The object built for every track in \<open>processAudioFiles\<close>.\<close>

record song =
  song_id :: string
  name :: string
  artist :: string
  album :: string
  duration :: real
  url :: string
  coverArt :: "string option"
  path :: "string list"

text \<open>
  Modelled from the spec: the enum \<open>RepeatMode\<close> is declared in \<open>types.ts\<close>, which is
  not among the sources. \<open>cycleRepeatMode\<close> computes \<open>(prev + 1) % 3\<close> and the
  specification gives the cycle NONE, ALL, ONE, so the members are numbered 0, 1, 2.
\<close>

datatype RepeatMode = Repeat_NONE | Repeat_ALL | Repeat_ONE

fun cycle :: "RepeatMode \<Rightarrow> RepeatMode" where
  "cycle Repeat_NONE = Repeat_ALL"
| "cycle Repeat_ALL = Repeat_ONE"
| "cycle Repeat_ONE = Repeat_NONE"

text \<open>The \<open>useState\<close> cells of \<open>App\<close> that the queue and the playback handlers use.\<close>

record app =
  songs :: "song list"
  currentSongIndex :: jsval
  isPlaying :: bool
  repeatMode :: RepeatMode
  isShuffled :: bool
  playQueue :: "int list"
  originalQueue :: "int list"
  directoryHandle :: "string option"
  initialTime :: real
  playbackRate :: real
  songToDelete :: "int option"

definition initial_app :: app where
  "initial_app =
     \<lparr>songs = [], currentSongIndex = JNull, isPlaying = False, repeatMode = Repeat_NONE,
      isShuffled = False, playQueue = [], originalQueue = [], directoryHandle = None,
      initialTime = 0, playbackRate = 1, songToDelete = None\<rparr>"

text \<open>The object \<open>stateToSave\<close> written to \<open>localStorage\<close>.\<close>

record snapshot =
  saved_songCount :: int
  saved_playQueue :: "int list"
  saved_originalQueue :: "int list"
  saved_currentSongIndex :: jsval
  saved_isShuffled :: bool
  saved_repeatMode :: RepeatMode
  saved_playbackRate :: real
  saved_currentTime :: real

text \<open>\<open>JSON.stringify\<close> writes \<open>NaN\<close> as \<open>null\<close>.\<close>

definition json_number :: "jsval \<Rightarrow> jsval" where
  "json_number v = (case v of JNaN \<Rightarrow> JNull | _ \<Rightarrow> v)"

definition stateToSave :: "app \<Rightarrow> real \<Rightarrow> snapshot" where
  "stateToSave s t =
     \<lparr>saved_songCount = int (length (songs s)),
      saved_playQueue = playQueue s,
      saved_originalQueue = originalQueue s,
      saved_currentSongIndex = json_number (currentSongIndex s),
      saved_isShuffled = isShuffled s,
      saved_repeatMode = repeatMode s,
      saved_playbackRate = playbackRate s,
      saved_currentTime = t\<rparr>"

text \<open>The guard of both save effects: \<open>songs.length > 0 && currentSongIndex !== null\<close>.\<close>

definition saves :: "app \<Rightarrow> bool" where
  "saves s \<longleftrightarrow> length (songs s) > 0 \<and> currentSongIndex s \<noteq> JNull"

text \<open>
  What \<open>localStorage.getItem\<close> followed by \<open>JSON.parse\<close> gives: nothing, a text that
  does not parse to an object, or a saved state.
\<close>

datatype stored = Absent | Corrupt | Stored snapshot

text \<open>What a handler does besides updating the state.\<close>

datatype effect = Alert string | RemoveSavedState | UncaughtTypeError

text \<open>
  The derived \<open>currentSong\<close>:
  \<open>currentSongIndex !== null ? songs[playQueue[currentSongIndex]] : null\<close>.
  \<open>None\<close> covers both \<open>null\<close> and \<open>undefined\<close>; the player controls are rendered
  under \<open>currentSong && ...\<close>.
\<close>

definition currentSong :: "app \<Rightarrow> song option" where
  "currentSong s =
     (if currentSongIndex s \<noteq> JNull then
        (case js_index (playQueue s) (currentSongIndex s) of
           JNum t \<Rightarrow> js_nth (songs s) t
         | _ \<Rightarrow> None)
      else None)"

section \<open>Loading the library and restoring the saved state\<close>

definition initialQueue :: "song list \<Rightarrow> int list" where
  "initialQueue newSongs = map int [0 ..< length newSongs]"

text \<open>The fall-through branch of \<open>processAudioFiles\<close> ("initialize fresh").\<close>

definition initialize_fresh :: "song list \<Rightarrow> app \<Rightarrow> app" where
  "initialize_fresh newSongs s =
     s\<lparr>originalQueue := initialQueue newSongs,
       playQueue := initialQueue newSongs,
       currentSongIndex := JNum 0,
       isPlaying := False,
       initialTime := 0,
       playbackRate := 1\<rparr>"

text \<open>
  \<open>processAudioFiles\<close>, after the metadata of the files has been read into
  \<open>newSongs\<close>; \<open>saved\<close> is the content of the storage at that moment.
\<close>

definition processAudioFiles :: "song list \<Rightarrow> stored \<Rightarrow> app \<Rightarrow> app \<times> effect list" where
  "processAudioFiles newSongs saved s =
     (if length newSongs = 0 then (s, [Alert ''No audio files found.''])
      else
        let s1 = s\<lparr>songs := newSongs\<rparr> in
        case saved of
          Stored savedState \<Rightarrow>
            if saved_songCount savedState = int (length newSongs) then
              (s1\<lparr>playQueue := saved_playQueue savedState,
                  originalQueue := saved_originalQueue savedState,
                  currentSongIndex := saved_currentSongIndex savedState,
                  isShuffled := saved_isShuffled savedState,
                  repeatMode := saved_repeatMode savedState,
                  initialTime := js_or (saved_currentTime savedState) 0,
                  playbackRate := js_or (saved_playbackRate savedState) 1,
                  isPlaying := False\<rparr>, [])
            else (initialize_fresh newSongs s1, [])
        | Corrupt \<Rightarrow> (initialize_fresh newSongs s1, [RemoveSavedState])
        | Absent \<Rightarrow> (initialize_fresh newSongs s1, []))"

section \<open>Playback handlers\<close>

definition playSong :: "int \<Rightarrow> app \<Rightarrow> app" where
  "playSong index s =
     (let queueIndex = indexOf (playQueue s) (JNum index) in
      if queueIndex \<noteq> - 1 then
        (if currentSongIndex s \<noteq> JNum queueIndex then s\<lparr>initialTime := 0\<rparr> else s)
          \<lparr>currentSongIndex := JNum queueIndex, isPlaying := True\<rparr>
      else
        let originalIndex = indexOf (originalQueue s) (JNum index) in
        if originalIndex \<noteq> - 1 then
          (if currentSongIndex s \<noteq> JNum originalIndex then s\<lparr>initialTime := 0\<rparr> else s)
            \<lparr>currentSongIndex := JNum originalIndex, isPlaying := True\<rparr>
        else s)"

definition togglePlayPause :: "app \<Rightarrow> app" where
  "togglePlayPause s =
     (if currentSongIndex s = JNull \<and> length (songs s) > 0
      then s\<lparr>currentSongIndex := JNum 0, isPlaying := True\<rparr>
      else s\<lparr>isPlaying := \<not> isPlaying s\<rparr>)"

definition playNext :: "app \<Rightarrow> app" where
  "playNext s =
     (if currentSongIndex s = JNull then s
      else
        let nextIndex = js_add (currentSongIndex s) 1 in
        if js_ge nextIndex (int (length (playQueue s))) then
          (if repeatMode s = Repeat_ALL
           then s\<lparr>initialTime := 0, currentSongIndex := JNum 0, isPlaying := True\<rparr>
           else s\<lparr>isPlaying := False\<rparr>)
        else s\<lparr>initialTime := 0, currentSongIndex := nextIndex, isPlaying := True\<rparr>)"

definition playPrev :: "app \<Rightarrow> app" where
  "playPrev s =
     (if currentSongIndex s = JNull then s
      else
        let prevIndex =
              js_rem (js_add (js_add (currentSongIndex s) (- 1)) (int (length (playQueue s))))
                     (int (length (playQueue s)))
        in s\<lparr>initialTime := 0, currentSongIndex := prevIndex, isPlaying := True\<rparr>)"

definition cycleRepeatMode :: "app \<Rightarrow> app" where
  "cycleRepeatMode s = s\<lparr>repeatMode := cycle (repeatMode s)\<rparr>"

section \<open>Shuffle\<close>

text \<open>
  The destructuring swap \<open>[q[0], q[k]] = [q[k], q[0]]\<close>: both right-hand values are read
  first, then slot 0 and slot \<open>k\<close> are written in that order.
\<close>

definition swap_front :: "int list \<Rightarrow> nat \<Rightarrow> int list" where
  "swap_front q k = (q[0 := q ! k])[k := q ! 0]"

text \<open>
  \<open>toggleShuffle\<close>. The array \<open>shuffled\<close> is what
  \<open>[...originalQueue].sort(() => Math.random() - 0.5)\<close> returned: some rearrangement
  of \<open>originalQueue\<close>, chosen by the random comparator.
\<close>

definition toggleShuffle :: "int list \<Rightarrow> app \<Rightarrow> app" where
  "toggleShuffle shuffled s =
     (let nextIsShuffled = \<not> isShuffled s;
          currentSongOriginalIndex =
            (if currentSongIndex s \<noteq> JNull then js_index (playQueue s) (currentSongIndex s)
             else JNum (- 1))
      in
      if nextIsShuffled then
        let newQueue =
              (if currentSongOriginalIndex \<noteq> JNum (- 1) then
                 let currentInShuffled = indexOf shuffled currentSongOriginalIndex in
                 if currentInShuffled > 0 then swap_front shuffled (nat currentInShuffled)
                 else shuffled
               else shuffled)
        in s\<lparr>playQueue := newQueue, currentSongIndex := JNum 0, isShuffled := nextIsShuffled\<rparr>
      else
        s\<lparr>playQueue := originalQueue s,
          currentSongIndex :=
            (if currentSongOriginalIndex \<noteq> JNum (- 1)
             then JNum (indexOf (originalQueue s) currentSongOriginalIndex)
             else JNum 0),
          isShuffled := nextIsShuffled\<rparr>)"

section \<open>Deleting a track\<close>

text \<open>
  What the file system answered to \<open>handleConfirmDelete\<close>: the write permission was not
  granted; a call (\<open>requestPermission\<close>, \<open>getDirectoryHandle\<close>, \<open>removeEntry\<close>) threw;
  or the entry was removed.
\<close>

datatype fs_outcome = PermissionRefused | FsError | FsRemoved

text \<open>\<open>queue.filter(i => i !== d).map(i => (i > d ? i - 1 : i))\<close>.\<close>

definition compact :: "int \<Rightarrow> int list \<Rightarrow> int list" where
  "compact d queue = map (\<lambda>i. if i > d then i - 1 else i) (filter (\<lambda>i. i \<noteq> d) queue)"

text \<open>
  \<open>handleConfirmDelete\<close> is an \<open>async\<close> function. It runs in the closure of the render
  in which the dialog was confirmed, so every state variable it reads has the value of that
  moment (the state \<open>sc\<close>, "at the click"). It then awaits \<open>requestPermission\<close>,
  \<open>getDirectoryHandle\<close> and \<open>removeEntry\<close>, and other handlers may run meanwhile. When it
  resumes, its setters write values computed from \<open>sc\<close> over whatever the state has become
  (the state \<open>sn\<close>, "at completion"); a state variable it does not set keeps its value
  in \<open>sn\<close>.
\<close>

text \<open>
  The state update of \<open>handleConfirmDelete\<close>, reached once the entry is removed:
  \<open>wasPlaying\<close>, \<open>oldPlayingOriginalIndex\<close>, \<open>newSongs\<close> and both new queues are
  computed from \<open>sc\<close>, and the setters are applied to \<open>sn\<close>.
\<close>

definition removeLibraryIndex :: "int \<Rightarrow> app \<Rightarrow> app \<Rightarrow> app \<times> effect list" where
  "removeLibraryIndex deletedSongIndex sc sn =
     (let wasPlaying = isPlaying sc;
          oldPlayingOriginalIndex =
            (if currentSongIndex sc \<noteq> JNull then js_index (playQueue sc) (currentSongIndex sc)
             else JNull);
          newSongs = filter_index deletedSongIndex (songs sc)
      in
      if length newSongs = 0 then
        (sn\<lparr>songs := [], originalQueue := [], playQueue := [], currentSongIndex := JNull,
            isPlaying := False\<rparr>, [RemoveSavedState])
      else
        let newOriginalQueue = compact deletedSongIndex (originalQueue sc);
            newPlayQueue = compact deletedSongIndex (playQueue sc);
            s1 = (if oldPlayingOriginalIndex = JNum deletedSongIndex
                  then sn\<lparr>initialTime := 0, isPlaying := wasPlaying\<rparr> else sn);
            newCurrentSongIndex =
              (if oldPlayingOriginalIndex = JNum deletedSongIndex then
                 js_rem (currentSongIndex sc) (int (length newPlayQueue))
               else if oldPlayingOriginalIndex \<noteq> JNull then
                 let newPlayingOriginalIndex =
                       (if js_gt oldPlayingOriginalIndex deletedSongIndex
                        then js_add oldPlayingOriginalIndex (- 1)
                        else oldPlayingOriginalIndex);
                     newQueueIndex = indexOf newPlayQueue newPlayingOriginalIndex
                 in if newQueueIndex \<noteq> - 1 then JNum newQueueIndex else JNum 0
               else JNum 0)
        in (s1\<lparr>songs := newSongs, originalQueue := newOriginalQueue,
               playQueue := newPlayQueue, currentSongIndex := newCurrentSongIndex\<rparr>, []))"

text \<open>
  \<open>handleConfirmDelete\<close>, from the click in \<open>sc\<close> to its completion in \<open>sn\<close>. The first
  test returns before any \<open>await\<close>, with nothing written. Reading \<open>song.path\<close> or
  \<open>song.name\<close> of an undefined \<open>song\<close> throws a \<open>TypeError\<close>; thrown inside the \<open>catch\<close>
  block it leaves the handler uncaught, after the \<open>finally\<close> block has cleared
  \<open>songToDelete\<close>.
\<close>

definition handleConfirmDelete :: "fs_outcome \<Rightarrow> app \<Rightarrow> app \<Rightarrow> app \<times> effect list" where
  "handleConfirmDelete fs sc sn =
     (case songToDelete sc of
        None \<Rightarrow> (sn, [])
      | Some deletedSongIndex \<Rightarrow>
          if directoryHandle sc = None then (sn, [])
          else if fs = PermissionRefused then
            (sn\<lparr>songToDelete := None\<rparr>,
             [Alert ''Permission to write was denied. Cannot delete the file.''])
          else
            (case js_nth (songs sc) deletedSongIndex of
               None \<Rightarrow> (sn\<lparr>songToDelete := None\<rparr>, [UncaughtTypeError])
             | Some song \<Rightarrow>
                 if fs = FsError then
                   (sn\<lparr>songToDelete := None\<rparr>,
                    [Alert (''Failed to delete '' @ [CHR 0x27] @ name song @ [CHR 0x27]
                            @ ''. Check console for details.'')])
                 else
                   (let (s', fx) = removeLibraryIndex deletedSongIndex sc sn
                    in (s'\<lparr>songToDelete := None\<rparr>, fx))))"

section \<open>Invariants and reachable states\<close>

text \<open>The index list \<open>[0 .. n - 1]\<close> of a library of \<open>n\<close> tracks.\<close>

definition identity_order :: "nat \<Rightarrow> int list" where
  "identity_order n = map int [0 ..< n]"

text \<open>Both orders, once sorted, are the index list of the current library.\<close>

definition orders_ok :: "app \<Rightarrow> bool" where
  "orders_ok s \<longleftrightarrow>
     sort (playQueue s) = identity_order (length (songs s)) \<and>
     sort (originalQueue s) = identity_order (length (songs s))"

text \<open>A position is \<open>null\<close> or an offset into the play queue that holds a library index.\<close>

definition position_ok :: "app \<Rightarrow> bool" where
  "position_ok s \<longleftrightarrow>
     (case currentSongIndex s of
        JNull \<Rightarrow> True
      | JNum p \<Rightarrow> 0 \<le> p \<and> p < int (length (playQueue s)) \<and>
                 0 \<le> playQueue s ! nat p \<and> playQueue s ! nat p < int (length (songs s))
      | _ \<Rightarrow> False)"

definition queue_inv :: "app \<Rightarrow> bool" where
  "queue_inv s \<longleftrightarrow> orders_ok s \<and> position_ok s"

text \<open>
  The states the application can be in. Every synchronous handler, and every stretch of an
  asynchronous one between two awaits, is one transition, as the single-threaded event loop
  runs it. The rules follow the places where the handlers are wired up in \<open>App\<close>:
  \<^item> \<open>mount\<close>: the initial values of the \<open>useState\<close> cells.
  \<^item> \<open>load\<close>, \<open>restore\<close>: \<open>processAudioFiles\<close> finishing, with the storage empty or
    unreadable, or holding what one of the two save effects wrote in some reachable state
    \<open>t\<close> (of this or an earlier session) that satisfied their guard; the player updates only
    the \<open>currentTime\<close> field of a stored state, hence the arbitrary \<open>time\<close>.
  \<^item> \<open>play_pause\<close>, \<open>play_next\<close>, \<open>play_prev\<close>, \<open>shuffle\<close>, \<open>repeat\<close>, \<open>rate\<close>, \<open>time_applied\<close>:
    the controls and callbacks of \<open>Player\<close> and \<open>MiniPlayer\<close>, which \<open>App\<close> renders only
    under \<open>currentSong && ...\<close>. In \<open>shuffle\<close> the array \<open>shuffled\<close> is a rearrangement
    of \<open>originalQueue\<close>, as \<open>Array.prototype.sort\<close> returns one.
  \<^item> \<open>select\<close>, \<open>delete_request\<close>, \<open>delete_cancel\<close>: the song list and the confirmation
    dialog; \<open>playing\<close>: \<open>setIsPlaying\<close>, which the sleep timer calls; \<open>set_handle\<close>:
    \<open>setHandle\<close> after a folder was picked.
  \<^item> \<open>delete_confirm\<close>: \<open>handleConfirmDelete\<close> completing. The dialog was confirmed in a
    reachable state \<open>sc\<close>; by the time the awaits are over the application is in some
    reachable state \<open>sn\<close>, changed by whatever ran meanwhile (a track ending, a media key,
    another pending deletion), and the handler writes over \<open>sn\<close>.
\<close>

inductive reachable :: "app \<Rightarrow> bool" where
  mount: "reachable initial_app"
| load: "reachable s \<Longrightarrow> saved = Absent \<or> saved = Corrupt \<Longrightarrow>
         reachable (fst (processAudioFiles newSongs saved s))"
| restore: "reachable s \<Longrightarrow> reachable t \<Longrightarrow> saves t \<Longrightarrow>
            reachable (fst (processAudioFiles newSongs (Stored (stateToSave t time)) s))"
| set_handle: "reachable s \<Longrightarrow> reachable (s\<lparr>directoryHandle := Some h\<rparr>)"
| select: "reachable s \<Longrightarrow> reachable (playSong index s)"
| play_pause: "reachable s \<Longrightarrow> currentSong s \<noteq> None \<Longrightarrow> reachable (togglePlayPause s)"
| play_next: "reachable s \<Longrightarrow> currentSong s \<noteq> None \<Longrightarrow> reachable (playNext s)"
| play_prev: "reachable s \<Longrightarrow> currentSong s \<noteq> None \<Longrightarrow> reachable (playPrev s)"
| shuffle: "reachable s \<Longrightarrow> currentSong s \<noteq> None \<Longrightarrow> mset shuffled = mset (originalQueue s) \<Longrightarrow>
            reachable (toggleShuffle shuffled s)"
| repeat: "reachable s \<Longrightarrow> currentSong s \<noteq> None \<Longrightarrow> reachable (cycleRepeatMode s)"
| rate: "reachable s \<Longrightarrow> currentSong s \<noteq> None \<Longrightarrow> reachable (s\<lparr>playbackRate := r\<rparr>)"
| time_applied: "reachable s \<Longrightarrow> currentSong s \<noteq> None \<Longrightarrow> reachable (s\<lparr>initialTime := 0\<rparr>)"
| playing: "reachable s \<Longrightarrow> reachable (s\<lparr>isPlaying := b\<rparr>)"
| delete_request: "reachable s \<Longrightarrow> reachable (s\<lparr>songToDelete := Some songIndex\<rparr>)"
| delete_cancel: "reachable s \<Longrightarrow> reachable (s\<lparr>songToDelete := None\<rparr>)"
| delete_confirm: "reachable sc \<Longrightarrow> reachable sn \<Longrightarrow>
                   reachable (fst (handleConfirmDelete fs sc sn))"

section \<open>Example libraries\<close>

text \<open>
  The song \<open>processAudioFiles\<close> builds for a file without tags in the root of the folder:
  \<open>getSongMetadata\<close> falls back to the file name and to the two "Unknown" texts.
\<close>

definition untagged :: "string \<Rightarrow> song" where
  "untagged f =
     \<lparr>song_id = f @ ''-0'', name = f, artist = ''Unknown Artist'', album = ''Unknown Album'',
      duration = 0, url = ''blob:'' @ f, coverArt = None, path = [f]\<rparr>"

definition library :: "nat \<Rightarrow> song list" where
  "library n = map (\<lambda>i. untagged (replicate (Suc i) CHR ''a'')) [0 ..< n]"

text \<open>A first load of \<open>n\<close> files with nothing in the storage.\<close>

definition loaded :: "nat \<Rightarrow> app" where
  "loaded n = fst (processAudioFiles (library n) Absent initial_app)"

section \<open>Facts about the array primitives\<close>

lemma sorted_identity_order: "sorted (identity_order n)"
  unfolding identity_order_def by (simp add: sorted_map sorted_wrt_iff_nth_less)

lemma sort_eq_identity_order:
  "sort xs = identity_order n \<longleftrightarrow> mset xs = mset (identity_order n)"
proof
  assume "sort xs = identity_order n"
  then have "mset (sort xs) = mset (identity_order n)" by simp
  then show "mset xs = mset (identity_order n)" by simp
next
  assume "mset xs = mset (identity_order n)"
  then show "sort xs = identity_order n"
    using sorted_identity_order [of n] by (simp add: properties_for_sort)
qed

lemma set_identity_order: "set (identity_order n) = {i. 0 \<le> i \<and> i < int n}"
proof -
  have "i \<in> int ` {0 ..< n} \<longleftrightarrow> 0 \<le> i \<and> i < int n" for i
  proof
    assume "i \<in> int ` {0 ..< n}" then show "0 \<le> i \<and> i < int n" by auto
  next
    assume "0 \<le> i \<and> i < int n"
    then have "nat i \<in> {0 ..< n}" "i = int (nat i)" by auto
    then show "i \<in> int ` {0 ..< n}" by (rule_tac image_eqI)
  qed
  then show ?thesis unfolding identity_order_def by auto
qed

lemma length_identity_order: "length (identity_order n) = n"
  by (simp add: identity_order_def)

lemma distinct_identity_order: "distinct (identity_order n)"
  by (simp add: identity_order_def distinct_map inj_on_def)

lemma compact_below: "compact (int k) (map int [0 ..< k]) = map int [0 ..< k]"
  unfolding compact_def by (induction k) auto

lemma compact_above: "compact (int k) (map int [Suc k ..< Suc k + m]) = map int [k ..< k + m]"
proof -
  have "filter (\<lambda>i. i \<noteq> int k) (map int [Suc k ..< Suc k + m]) = map int [Suc k ..< Suc k + m]"
    by (auto simp: filter_id_conv)
  then have "compact (int k) (map int [Suc k ..< Suc k + m]) = map (\<lambda>i. int i - 1) [Suc k ..< Suc (k + m)]"
    unfolding compact_def by (auto simp: comp_def simp del: upt_Suc)
  also have "\<dots> = map (\<lambda>i. int i - 1) (map Suc [k ..< k + m])"
    by (simp only: map_Suc_upt)
  also have "\<dots> = map int [k ..< k + m]" by (simp add: comp_def)
  finally show ?thesis .
qed

lemma compact_append: "compact d (xs @ ys) = compact d xs @ compact d ys"
  by (simp add: compact_def)

lemma compact_identity_order:
  assumes "0 \<le> d" "d < int n"
  shows "compact d (identity_order n) = identity_order (n - 1)"
proof -
  define k where "k = nat d"
  have dk: "d = int k" and kn: "k < n" using assms by (auto simp: k_def)
  obtain m where n: "n = Suc k + m" using kn by (auto dest: less_imp_Suc_add)
  have split: "[0 ..< n] = [0 ..< k] @ [k] @ [Suc k ..< Suc k + m]"
    unfolding n using upt_add_eq_append [of 0 k "Suc m"] by (simp add: upt_conv_Cons)
  have c: "compact d [int k] = []" by (simp add: compact_def dk)
  have "compact d (identity_order n) =
          compact d (map int [0 ..< k]) @ compact d [int k] @ compact d (map int [Suc k ..< Suc k + m])"
    unfolding identity_order_def split by (simp only: map_append compact_append list.map)
  also have "\<dots> = map int ([0 ..< k] @ [k ..< k + m])"
    using compact_below [of k] compact_above [of k m] c by (simp add: dk del: upt_Suc)
  also have "[0 ..< k] @ [k ..< k + m] = [0 ..< n - 1]"
    unfolding n using upt_add_eq_append [of 0 k m] by simp
  finally show ?thesis by (simp add: identity_order_def)
qed

lemma mset_compact:
  "mset xs = mset ys \<Longrightarrow> mset (compact d xs) = mset (compact d ys)"
proof -
  assume a: "mset xs = mset ys"
  have "mset (compact d zs) = image_mset (\<lambda>i. if i > d then i - 1 else i) (filter_mset (\<lambda>i. i \<noteq> d) (mset zs))" for zs
    by (simp add: compact_def)
  then show ?thesis using a by simp
qed

lemma filter_enumerate_length:
  "length (filter (\<lambda>(index, _). int index \<noteq> d) (enumerate k xs)) =
     (if int k \<le> d \<and> d < int (k + length xs) then length xs - 1 else length xs)"
proof (induction xs arbitrary: k)
  case Nil
  then show ?case by simp
next
  case (Cons x xs)
  show ?case using Cons.IH [of "Suc k"] by (auto split: if_splits)
qed

lemma length_filter_index:
  "length (filter_index d xs) = (if 0 \<le> d \<and> d < int (length xs) then length xs - 1 else length xs)"
  unfolding filter_index_def using filter_enumerate_length [of d 0 xs] by simp

lemma indexOf_from_absent: "v \<notin> set xs \<Longrightarrow> indexOf_from xs v k = - 1"
  by (induction xs arbitrary: k) auto

lemma indexOf_from_present:
  "v \<in> set xs \<Longrightarrow> 0 \<le> k \<Longrightarrow>
     k \<le> indexOf_from xs v k \<and> indexOf_from xs v k < k + int (length xs) \<and>
     xs ! nat (indexOf_from xs v k - k) = v"
proof (induction xs arbitrary: k)
  case Nil
  then show ?case by simp
next
  case (Cons x xs)
  show ?case
  proof (cases "x = v")
    case True
    then show ?thesis by simp
  next
    case False
    with Cons.prems have "v \<in> set xs" by simp
    from Cons.IH [OF this, of "k + 1"] Cons.prems(2)
    have ih: "k + 1 \<le> indexOf_from xs v (k + 1)"
      "indexOf_from xs v (k + 1) < k + 1 + int (length xs)"
      "xs ! nat (indexOf_from xs v (k + 1) - (k + 1)) = v" by auto
    have "nat (indexOf_from xs v (k + 1) - k) = Suc (nat (indexOf_from xs v (k + 1) - (k + 1)))"
      using ih(1) by linarith
    then show ?thesis using False ih by simp
  qed
qed

lemma indexOf_absent: "v \<notin> set xs \<Longrightarrow> indexOf xs (JNum v) = - 1"
  by (simp add: indexOf_def indexOf_from_absent)

lemma indexOf_present:
  assumes "v \<in> set xs"
  shows "0 \<le> indexOf xs (JNum v)" "indexOf xs (JNum v) < int (length xs)"
    "xs ! nat (indexOf xs (JNum v)) = v"
  using indexOf_from_present [OF assms, of 0] by (simp_all add: indexOf_def)

lemma indexOf_neg_iff: "indexOf xs (JNum v) = - 1 \<longleftrightarrow> v \<notin> set xs"
  using indexOf_absent [of v xs] indexOf_present(1) [of v xs] by auto

lemma indexOf_from_nth_distinct:
  "distinct xs \<Longrightarrow> p < length xs \<Longrightarrow> indexOf_from xs (xs ! p) k = k + int p"
proof (induction xs arbitrary: k p)
  case Nil
  then show ?case by simp
next
  case (Cons x xs)
  show ?case
  proof (cases p)
    case 0
    then show ?thesis by simp
  next
    case (Suc q)
    with Cons.prems have q: "q < length xs" and d: "distinct xs" and ne: "xs ! q \<noteq> x"
      by auto
    from Cons.IH [OF d q, of "k + 1"] ne Suc show ?thesis by simp
  qed
qed

lemma indexOf_nth_distinct:
  "distinct xs \<Longrightarrow> p < length xs \<Longrightarrow> indexOf xs (JNum (xs ! p)) = int p"
  using indexOf_from_nth_distinct [of xs p 0] by (simp add: indexOf_def)

lemma mset_swap_front: "k < length q \<Longrightarrow> mset (swap_front q k) = mset q"
  unfolding swap_front_def using mset_swap [of k q 0] by (cases q) auto

lemma swap_front_hd: "k < length q \<Longrightarrow> swap_front q k ! 0 = q ! k"
  unfolding swap_front_def by (cases q; cases k) auto

section \<open>The handlers preserve the invariants\<close>

lemma orders_ok_mset:
  "orders_ok s \<longleftrightarrow>
     mset (playQueue s) = mset (identity_order (length (songs s))) \<and>
     mset (originalQueue s) = mset (identity_order (length (songs s)))"
  by (simp add: orders_ok_def sort_eq_identity_order)

lemma perm_identity_facts:
  assumes "mset xs = mset (identity_order n)"
  shows "length xs = n" "set xs = {i. 0 \<le> i \<and> i < int n}" "distinct xs"
proof -
  show "length xs = n" using mset_eq_length [OF assms] by (simp add: length_identity_order)
  show "set xs = {i. 0 \<le> i \<and> i < int n}"
    using mset_eq_setD [OF assms] by (simp add: set_identity_order)
  show "distinct xs"
    using mset_eq_imp_distinct_iff [OF assms] by (simp add: distinct_identity_order)
qed

lemma perm_identity_nth:
  assumes "mset xs = mset (identity_order n)" "p < n"
  shows "0 \<le> xs ! p \<and> xs ! p < int n"
proof -
  have "xs ! p \<in> set xs" using perm_identity_facts(1) [OF assms(1)] assms(2) by simp
  then show ?thesis using perm_identity_facts(2) [OF assms(1)] by simp
qed

lemma orders_ok_lengths:
  "orders_ok s \<Longrightarrow> length (playQueue s) = length (songs s)"
  "orders_ok s \<Longrightarrow> length (originalQueue s) = length (songs s)"
  by (simp_all add: orders_ok_mset perm_identity_facts(1))

lemma position_ok_iff:
  assumes "orders_ok s"
  shows "position_ok s \<longleftrightarrow>
     (case currentSongIndex s of
        JNull \<Rightarrow> True | JNum p \<Rightarrow> 0 \<le> p \<and> p < int (length (songs s)) | _ \<Rightarrow> False)"
proof (cases "currentSongIndex s")
  case (JNum p)
  have len: "length (playQueue s) = length (songs s)" using assms by (rule orders_ok_lengths)
  have "0 \<le> playQueue s ! nat p \<and> playQueue s ! nat p < int (length (songs s))"
    if "0 \<le> p" "p < int (length (songs s))"
    using perm_identity_nth [of "playQueue s" "length (songs s)" "nat p"] assms that
    by (simp add: orders_ok_mset)
  then show ?thesis using JNum len by (auto simp: position_ok_def)
qed (simp_all add: position_ok_def)

lemma indexOf_range:
  "indexOf xs v = - 1 \<or> (0 \<le> indexOf xs v \<and> indexOf xs v < int (length xs))"
proof (cases v)
  case (JNum n)
  then show ?thesis
    using indexOf_absent [of n xs] indexOf_present(1,2) [of n xs] by (cases "n \<in> set xs") auto
qed (simp_all add: indexOf_def)

lemma queue_inv_initial: "queue_inv initial_app"
  by (simp add: queue_inv_def orders_ok_def position_ok_def initial_app_def identity_order_def)

lemma orders_ok_initialize_fresh:
  "orders_ok (initialize_fresh newSongs (s\<lparr>songs := newSongs\<rparr>))"
  by (simp add: orders_ok_mset initialize_fresh_def initialQueue_def identity_order_def)

lemma queue_inv_initialize_fresh:
  "newSongs \<noteq> [] \<Longrightarrow> queue_inv (initialize_fresh newSongs (s\<lparr>songs := newSongs\<rparr>))"
  unfolding queue_inv_def
  using orders_ok_initialize_fresh [of newSongs s]
  by (simp add: position_ok_iff) (simp add: initialize_fresh_def)

lemma json_number_position: "position_ok t \<Longrightarrow> json_number (currentSongIndex t) = currentSongIndex t"
  by (auto simp: json_number_def position_ok_def split: jsval.splits)

lemma queue_inv_restore:
  assumes "queue_inv t" "int (length (songs t)) = int (length newSongs)"
  shows "queue_inv (s\<lparr>songs := newSongs,
           playQueue := saved_playQueue (stateToSave t time),
           originalQueue := saved_originalQueue (stateToSave t time),
           currentSongIndex := saved_currentSongIndex (stateToSave t time),
           isShuffled := b, repeatMode := r, initialTime := x, playbackRate := y, isPlaying := False\<rparr>)"
  using assms json_number_position [of t]
  by (auto simp: queue_inv_def orders_ok_def position_ok_def stateToSave_def split: jsval.splits)

lemma queue_inv_processAudioFiles:
  assumes "queue_inv s" and "\<And>sv. saved = Stored sv \<Longrightarrow> \<exists>t time. queue_inv t \<and> sv = stateToSave t time"
  shows "queue_inv (fst (processAudioFiles newSongs saved s))"
proof (cases "newSongs = []")
  case True
  then show ?thesis using assms(1) by (simp add: processAudioFiles_def)
next
  case False
  show ?thesis
  proof (cases saved)
    case (Stored sv)
    then obtain t time where t: "queue_inv t" "sv = stateToSave t time" using assms(2) [OF Stored] by blast
    show ?thesis
    proof (cases "saved_songCount sv = int (length newSongs)")
      case True
      then have "int (length (songs t)) = int (length newSongs)" by (simp add: t(2) stateToSave_def)
      from queue_inv_restore [OF t(1) this] show ?thesis
        using False Stored True by (simp add: processAudioFiles_def Let_def t(2))
    next
      case F: False
      then show ?thesis using False Stored queue_inv_initialize_fresh [OF False]
        by (simp add: processAudioFiles_def Let_def)
    qed
  qed (use False queue_inv_initialize_fresh [OF False] in \<open>simp_all add: processAudioFiles_def Let_def\<close>)
qed

lemma queue_inv_cong:
  assumes "queue_inv s" "songs s' = songs s" "playQueue s' = playQueue s"
    "originalQueue s' = originalQueue s" "currentSongIndex s' = currentSongIndex s"
  shows "queue_inv s'"
  using assms by (auto simp: queue_inv_def orders_ok_def position_ok_def split: jsval.splits)

lemma queue_inv_position:
  assumes "queue_inv s" "songs s' = songs s" "playQueue s' = playQueue s"
    "originalQueue s' = originalQueue s" "currentSongIndex s' = JNum p"
    "0 \<le> p" "p < int (length (songs s))"
  shows "queue_inv s'"
proof -
  have o: "orders_ok s'" using assms(1-4) by (simp add: queue_inv_def orders_ok_def)
  show ?thesis unfolding queue_inv_def using o assms(2,5-7) by (simp add: position_ok_iff)
qed

lemma queue_inv_JNum:
  assumes "queue_inv s" "currentSongIndex s \<noteq> JNull"
  obtains p where "currentSongIndex s = JNum p" "0 \<le> p" "p < int (length (songs s))"
    "p < int (length (playQueue s))"
  using assms orders_ok_lengths(1) [of s]
  by (cases "currentSongIndex s") (auto simp: queue_inv_def position_ok_def)

lemma queue_inv_playSong: "queue_inv s \<Longrightarrow> queue_inv (playSong index s)"
proof -
  assume inv: "queue_inv s"
  then have o: "orders_ok s" by (simp add: queue_inv_def)
  note len = orders_ok_lengths [OF o]
  let ?q = "indexOf (playQueue s) (JNum index)" and ?o = "indexOf (originalQueue s) (JNum index)"
  show ?thesis
  proof (cases "?q \<noteq> - 1")
    case True
    then have "0 \<le> ?q" "?q < int (length (songs s))"
      using indexOf_range [of "playQueue s" "JNum index"] len by auto
    then show ?thesis using True
      by (intro queue_inv_position [OF inv, of _ ?q]) (simp_all add: playSong_def Let_def)
  next
    case False
    show ?thesis
    proof (cases "?o \<noteq> - 1")
      case True
      then have "0 \<le> ?o" "?o < int (length (songs s))"
        using indexOf_range [of "originalQueue s" "JNum index"] len by auto
      then show ?thesis using True False
        by (intro queue_inv_position [OF inv, of _ ?o]) (simp_all add: playSong_def Let_def)
    next
      case F: False
      then show ?thesis using False inv by (simp add: playSong_def Let_def)
    qed
  qed
qed

lemma queue_inv_togglePlayPause: "queue_inv s \<Longrightarrow> queue_inv (togglePlayPause s)"
proof -
  assume inv: "queue_inv s"
  show ?thesis
  proof (cases "currentSongIndex s = JNull \<and> length (songs s) > 0")
    case True
    then show ?thesis
      by (intro queue_inv_position [OF inv, of _ 0]) (simp_all add: togglePlayPause_def)
  next
    case False
    then show ?thesis
      by (intro queue_inv_cong [OF inv]) (auto simp: togglePlayPause_def)
  qed
qed

lemma queue_inv_playNext: "queue_inv s \<Longrightarrow> queue_inv (playNext s)"
proof -
  assume inv: "queue_inv s"
  show ?thesis
  proof (cases "currentSongIndex s = JNull")
    case True
    then show ?thesis using inv by (simp add: playNext_def)
  next
    case False
    from queue_inv_JNum [OF inv False] obtain p where
      p: "currentSongIndex s = JNum p" "0 \<le> p" "p < int (length (songs s))"
         "p < int (length (playQueue s))" by blast
    have len: "length (playQueue s) = length (songs s)"
      using inv by (simp add: queue_inv_def orders_ok_lengths)
    show ?thesis
    proof (cases "p + 1 \<ge> int (length (playQueue s))")
      case True
      show ?thesis
      proof (cases "repeatMode s = Repeat_ALL")
        case T: True
        have "songs s \<noteq> []" using p by auto
        with T show ?thesis using True p
          by (intro queue_inv_position [OF inv, of _ 0])
             (simp_all add: playNext_def js_add_def js_ge_def to_number_def)
      next
        case F: False
        then show ?thesis using True p
          by (intro queue_inv_cong [OF inv])
             (simp_all add: playNext_def js_add_def js_ge_def to_number_def)
      qed
    next
      case F: False
      then show ?thesis using p len
        by (intro queue_inv_position [OF inv, of _ "p + 1"])
           (simp_all add: playNext_def js_add_def js_ge_def to_number_def)
    qed
  qed
qed

lemma playPrev_JNum:
  assumes "currentSongIndex s = JNum p" "0 \<le> p" "p < int (length (playQueue s))"
  shows "currentSongIndex (playPrev s) =
           JNum (if p = 0 then int (length (playQueue s)) - 1 else p - 1)"
proof -
  let ?n = "int (length (playQueue s))"
  have n: "?n > 0" using assms by linarith
  have nn: "p - 1 + ?n \<ge> 0" using assms by linarith
  have "(p - 1 + ?n) mod ?n = (if p = 0 then ?n - 1 else p - 1)"
  proof (cases "p = 0")
    case True
    have "(?n - 1) mod ?n = ?n - 1" using n by (intro mod_pos_pos_trivial) auto
    then show ?thesis using True by simp
  next
    case False
    have "(p - 1) mod ?n = p - 1" using assms False by (intro mod_pos_pos_trivial) auto
    then show ?thesis using False by simp
  qed
  moreover have "sgn (p - 1 + ?n) * (\<bar>p - 1 + ?n\<bar> mod \<bar>?n\<bar>) = (p - 1 + ?n) mod ?n"
    using n nn by (cases "p - 1 + ?n = 0") (auto simp: sgn_if)
  ultimately show ?thesis using assms(1) n
    by (simp add: playPrev_def js_rem_def js_add_def to_number_def Let_def)
qed

lemma queue_inv_playPrev: "queue_inv s \<Longrightarrow> queue_inv (playPrev s)"
proof -
  assume inv: "queue_inv s"
  show ?thesis
  proof (cases "currentSongIndex s = JNull")
    case True
    then show ?thesis using inv by (simp add: playPrev_def)
  next
    case False
    from queue_inv_JNum [OF inv False] obtain p where
      p: "currentSongIndex s = JNum p" "0 \<le> p" "p < int (length (songs s))"
         "p < int (length (playQueue s))" by blast
    have len: "length (playQueue s) = length (songs s)"
      using inv by (simp add: queue_inv_def orders_ok_lengths)
    let ?q = "if p = 0 then int (length (playQueue s)) - 1 else p - 1"
    have "currentSongIndex (playPrev s) = JNum ?q" using playPrev_JNum [OF p(1,2,4)] .
    moreover have "0 \<le> ?q" "?q < int (length (songs s))" using p len by auto
    ultimately show ?thesis using False
      by (intro queue_inv_position [OF inv, of _ ?q]) (simp_all add: playPrev_def Let_def)
  qed
qed

lemma queue_inv_cycleRepeatMode: "queue_inv s \<Longrightarrow> queue_inv (cycleRepeatMode s)"
  by (erule queue_inv_cong) (simp_all add: cycleRepeatMode_def)

lemma queue_invI:
  assumes "mset (playQueue s) = mset (identity_order (length (songs s)))"
    and "mset (originalQueue s) = mset (identity_order (length (songs s)))"
    and "currentSongIndex s = JNull \<or>
         (\<exists>p. currentSongIndex s = JNum p \<and> 0 \<le> p \<and> p < int (length (songs s)))"
  shows "queue_inv s"
proof -
  have o: "orders_ok s" using assms(1,2) by (simp add: orders_ok_mset)
  show ?thesis unfolding queue_inv_def using o assms(3) by (auto simp: position_ok_iff)
qed

lemma js_index_valid:
  "0 \<le> p \<Longrightarrow> p < int (length xs) \<Longrightarrow> js_index xs (JNum p) = JNum (xs ! nat p)"
  by (simp add: js_index_def)

lemma js_rem_nonneg: "0 \<le> p \<Longrightarrow> 0 < m \<Longrightarrow> js_rem (JNum p) m = JNum (p mod m)"
  by (cases "p = 0") (auto simp: js_rem_def to_number_def sgn_if)

text \<open>The track a valid position resolves to.\<close>

lemma queue_inv_track:
  assumes "queue_inv s" "currentSongIndex s = JNum p"
  shows "0 \<le> p" "p < int (length (playQueue s))"
    "js_index (playQueue s) (currentSongIndex s) = JNum (playQueue s ! nat p)"
    "0 \<le> playQueue s ! nat p" "playQueue s ! nat p < int (length (songs s))"
    "playQueue s ! nat p \<in> set (playQueue s)" "playQueue s ! nat p \<in> set (originalQueue s)"
proof -
  from assms show p: "0 \<le> p" "p < int (length (playQueue s))"
    and r: "0 \<le> playQueue s ! nat p" "playQueue s ! nat p < int (length (songs s))"
    by (auto simp: queue_inv_def position_ok_def)
  show "js_index (playQueue s) (currentSongIndex s) = JNum (playQueue s ! nat p)"
    using p assms(2) by (simp add: js_index_valid)
  show "playQueue s ! nat p \<in> set (playQueue s)" using p by simp
  have "set (originalQueue s) = {i. 0 \<le> i \<and> i < int (length (songs s))}"
    using assms(1) by (simp add: queue_inv_def orders_ok_mset perm_identity_facts(2))
  then show "playQueue s ! nat p \<in> set (originalQueue s)" using r by simp
qed

subsection \<open>Shuffle\<close>

lemma toggleShuffle_on:
  assumes "\<not> isShuffled s" "queue_inv s" "currentSongIndex s = JNum p"
    "mset shuffled = mset (originalQueue s)"
  shows "toggleShuffle shuffled s =
           s\<lparr>playQueue :=
               (if indexOf shuffled (JNum (playQueue s ! nat p)) > 0
                then swap_front shuffled (nat (indexOf shuffled (JNum (playQueue s ! nat p))))
                else shuffled),
             currentSongIndex := JNum 0, isShuffled := True\<rparr>"
  using assms(1,3) queue_inv_track(3,4) [OF assms(2,3)]
  by (simp add: toggleShuffle_def Let_def)

lemma toggleShuffle_on_null:
  assumes "\<not> isShuffled s" "currentSongIndex s = JNull"
  shows "toggleShuffle shuffled s =
           s\<lparr>playQueue := shuffled, currentSongIndex := JNum 0, isShuffled := True\<rparr>"
  using assms by (simp add: toggleShuffle_def Let_def)

lemma toggleShuffle_off:
  assumes "isShuffled s" "queue_inv s" "currentSongIndex s = JNum p"
  shows "toggleShuffle shuffled s =
           s\<lparr>playQueue := originalQueue s,
             currentSongIndex := JNum (indexOf (originalQueue s) (JNum (playQueue s ! nat p))),
             isShuffled := False\<rparr>"
  using assms(1,3) queue_inv_track(3,4) [OF assms(2,3)]
  by (simp add: toggleShuffle_def Let_def)

lemma toggleShuffle_off_null:
  assumes "isShuffled s" "currentSongIndex s = JNull"
  shows "toggleShuffle shuffled s =
           s\<lparr>playQueue := originalQueue s, currentSongIndex := JNum 0, isShuffled := False\<rparr>"
  using assms by (simp add: toggleShuffle_def Let_def)

lemma shuffled_queue_front:
  assumes "t \<in> set shuffled"
  defines "k \<equiv> indexOf shuffled (JNum t)"
  defines "q \<equiv> (if k > 0 then swap_front shuffled (nat k) else shuffled)"
  shows "mset q = mset shuffled" "q ! 0 = t"
proof -
  have k: "0 \<le> k" "k < int (length shuffled)" "shuffled ! nat k = t"
    using indexOf_present [OF assms(1)] by (simp_all add: k_def)
  then have kl: "nat k < length shuffled" by linarith
  show "mset q = mset shuffled" using mset_swap_front [OF kl] by (simp add: q_def)
  show "q ! 0 = t"
  proof (cases "k > 0")
    case True
    then show ?thesis using swap_front_hd [OF kl] k(3) by (simp add: q_def)
  next
    case False
    then have "k = 0" using k(1) by simp
    then show ?thesis using k(3) by (simp add: q_def)
  qed
qed

lemma mset_shuffle_queue:
  "mset (if indexOf shuffled v > 0 then swap_front shuffled (nat (indexOf shuffled v)) else shuffled)
     = mset shuffled"
proof (cases "indexOf shuffled v > 0")
  case True
  then have "nat (indexOf shuffled v) < length shuffled"
    using indexOf_range [of shuffled v] by linarith
  then show ?thesis using True by (simp add: mset_swap_front)
qed simp

lemma orders_ok_toggleShuffle:
  assumes "orders_ok s" "mset shuffled = mset (originalQueue s)"
  shows "orders_ok (toggleShuffle shuffled s)"
  using assms mset_shuffle_queue [of shuffled]
  by (simp add: orders_ok_mset toggleShuffle_def Let_def)

lemma queue_inv_toggleShuffle:
  assumes "queue_inv s" "songs s \<noteq> []" "mset shuffled = mset (originalQueue s)"
  shows "queue_inv (toggleShuffle shuffled s)"
proof -
  let ?s' = "toggleShuffle shuffled s"
  have o: "orders_ok ?s'" using assms(1,3) by (simp add: queue_inv_def orders_ok_toggleShuffle)
  have songs: "songs ?s' = songs s" by (simp add: toggleShuffle_def Let_def)
  have len: "length (originalQueue s) = length (songs s)"
    using assms(1) by (simp add: queue_inv_def orders_ok_lengths)
  have "\<exists>q. currentSongIndex ?s' = JNum q \<and> 0 \<le> q \<and> q < int (length (songs s))"
  proof (cases "currentSongIndex s = JNull")
    case True
    then show ?thesis using assms(2) by (simp add: toggleShuffle_def Let_def)
  next
    case False
    from queue_inv_JNum [OF assms(1) False] obtain p where p: "currentSongIndex s = JNum p"
      by blast
    show ?thesis
    proof (cases "isShuffled s")
      case True
      have "playQueue s ! nat p \<in> set (originalQueue s)"
        using queue_inv_track(7) [OF assms(1) p] .
      from indexOf_present(1,2) [OF this] show ?thesis
        using toggleShuffle_off [OF True assms(1) p] len by simp
    next
      case F: False
      show ?thesis using toggleShuffle_on [OF F assms(1) p assms(3)] assms(2) by simp
    qed
  qed
  then show ?thesis unfolding queue_inv_def using o songs by (auto simp: position_ok_iff)
qed

subsection \<open>Deletion\<close>

lemma set_compact:
  "t \<in> set queue \<Longrightarrow> t \<noteq> d \<Longrightarrow> (if t > d then t - 1 else t) \<in> set (compact d queue)"
  by (auto simp: compact_def)

lemma mset_compact_identity:
  assumes "mset queue = mset (identity_order n)" "0 \<le> d" "d < int n"
  shows "mset (compact d queue) = mset (identity_order (n - 1))"
  using mset_compact [OF assms(1), of d] compact_identity_order [OF assms(2,3)] by simp

lemma removeLibraryIndex_last:
  assumes "length (filter_index d (songs sc)) = 0"
  shows "removeLibraryIndex d sc sn =
           (sn\<lparr>songs := [], originalQueue := [], playQueue := [], currentSongIndex := JNull,
               isPlaying := False\<rparr>, [RemoveSavedState])"
  using assms by (simp add: removeLibraryIndex_def Let_def)

lemma removeLibraryIndex_fields:
  assumes "length (filter_index d (songs sc)) \<noteq> 0"
  shows "songs (fst (removeLibraryIndex d sc sn)) = filter_index d (songs sc)"
    "originalQueue (fst (removeLibraryIndex d sc sn)) = compact d (originalQueue sc)"
    "playQueue (fst (removeLibraryIndex d sc sn)) = compact d (playQueue sc)"
    "snd (removeLibraryIndex d sc sn) = []"
  using assms by (simp_all add: removeLibraryIndex_def Let_def)

lemma removeLibraryIndex_current:
  assumes "length (filter_index d (songs sc)) \<noteq> 0"
    and "js_index (playQueue sc) (currentSongIndex sc) = JNum d" "currentSongIndex sc \<noteq> JNull"
  shows "currentSongIndex (fst (removeLibraryIndex d sc sn)) =
           js_rem (currentSongIndex sc) (int (length (compact d (playQueue sc))))"
    "initialTime (fst (removeLibraryIndex d sc sn)) = 0"
    "isPlaying (fst (removeLibraryIndex d sc sn)) = isPlaying sc"
  using assms by (simp_all add: removeLibraryIndex_def Let_def)

lemma removeLibraryIndex_other:
  assumes "length (filter_index d (songs sc)) \<noteq> 0"
    and "js_index (playQueue sc) (currentSongIndex sc) = JNum t" "currentSongIndex sc \<noteq> JNull"
    and "t \<noteq> d"
  shows "currentSongIndex (fst (removeLibraryIndex d sc sn)) =
           (let k = indexOf (compact d (playQueue sc)) (JNum (if t > d then t - 1 else t))
            in if k \<noteq> - 1 then JNum k else JNum 0)"
    "initialTime (fst (removeLibraryIndex d sc sn)) = initialTime sn"
    "isPlaying (fst (removeLibraryIndex d sc sn)) = isPlaying sn"
  using assms
  by (simp_all add: removeLibraryIndex_def Let_def js_gt_def js_add_def to_number_def)

lemma removeLibraryIndex_null:
  assumes "length (filter_index d (songs sc)) \<noteq> 0" "currentSongIndex sc = JNull"
  shows "currentSongIndex (fst (removeLibraryIndex d sc sn)) = JNum 0"
    "initialTime (fst (removeLibraryIndex d sc sn)) = initialTime sn"
    "isPlaying (fst (removeLibraryIndex d sc sn)) = isPlaying sn"
  using assms by (simp_all add: removeLibraryIndex_def Let_def)

text \<open>
  The invariants of the result rest on the state at the click alone: songs, both orders and
  the position are all written, from values of \<open>sc\<close>.
\<close>

lemma queue_inv_removeLibraryIndex:
  assumes inv: "queue_inv sc" and d: "0 \<le> d" "d < int (length (songs sc))"
  shows "queue_inv (fst (removeLibraryIndex d sc sn))"
proof (cases "length (filter_index d (songs sc)) = 0")
  case True
  show ?thesis unfolding removeLibraryIndex_last [OF True]
    by (intro queue_invI) (simp_all add: identity_order_def)
next
  case False
  let ?s' = "fst (removeLibraryIndex d sc sn)"
  let ?n = "length (songs sc)"
  note f = removeLibraryIndex_fields [OF False, of sn]
  have n': "length (songs ?s') = ?n - 1" using d by (simp add: f length_filter_index)
  have pos: "0 < ?n - 1" using False d by (simp add: length_filter_index)
  have o: "mset (playQueue sc) = mset (identity_order ?n)"
    "mset (originalQueue sc) = mset (identity_order ?n)"
    using inv by (simp_all add: queue_inv_def orders_ok_mset)
  have lenq: "length (compact d (playQueue sc)) = ?n - 1"
    using mset_eq_length [OF mset_compact_identity [OF o(1) d]] by (simp add: length_identity_order)
  show ?thesis
  proof (intro queue_invI)
    show "mset (playQueue ?s') = mset (identity_order (length (songs ?s')))"
      using mset_compact_identity [OF o(1) d] by (simp add: f(3) n')
    show "mset (originalQueue ?s') = mset (identity_order (length (songs ?s')))"
      using mset_compact_identity [OF o(2) d] by (simp add: f(2) n')
    show "currentSongIndex ?s' = JNull \<or>
          (\<exists>p. currentSongIndex ?s' = JNum p \<and> 0 \<le> p \<and> p < int (length (songs ?s')))"
    proof (cases "currentSongIndex sc = JNull")
      case True
      then show ?thesis using removeLibraryIndex_null(1) [OF False True, of sn] pos n' by simp
    next
      case N: False
      from queue_inv_JNum [OF inv N] obtain p where p: "currentSongIndex sc = JNum p" by blast
      note tr = queue_inv_track [OF inv p]
      let ?t = "playQueue sc ! nat p"
      show ?thesis
      proof (cases "?t = d")
        case True
        have "js_index (playQueue sc) (currentSongIndex sc) = JNum d" using tr(3) True by simp
        from removeLibraryIndex_current(1) [OF False this N, of sn]
        have "currentSongIndex ?s' = JNum (p mod int (?n - 1))"
          using p tr(1) pos by (simp add: lenq js_rem_nonneg)
        moreover have "0 \<le> p mod int (?n - 1)" "p mod int (?n - 1) < int (?n - 1)"
          using pos by simp_all
        ultimately show ?thesis using n' by simp
      next
        case F: False
        let ?k = "indexOf (compact d (playQueue sc)) (JNum (if ?t > d then ?t - 1 else ?t))"
        have k: "currentSongIndex ?s' = (if ?k \<noteq> - 1 then JNum ?k else JNum 0)"
          using removeLibraryIndex_other(1) [OF False tr(3) N F, of sn] by (simp add: Let_def)
        have "?k = - 1 \<or> (0 \<le> ?k \<and> ?k < int (?n - 1))"
          using indexOf_range [of "compact d (playQueue sc)"
                  "JNum (if ?t > d then ?t - 1 else ?t)"] lenq by simp
        then show ?thesis using k pos n' by auto
      qed
    qed
  qed
qed

lemma handleConfirmDelete_unchanged:
  "fs \<noteq> FsRemoved \<or> songToDelete sc = None \<or> directoryHandle sc = None \<or>
     js_nth (songs sc) (the (songToDelete sc)) = None \<Longrightarrow>
   fst (handleConfirmDelete fs sc sn) = sn \<or>
   fst (handleConfirmDelete fs sc sn) = sn\<lparr>songToDelete := None\<rparr>"
  by (cases fs) (auto simp: handleConfirmDelete_def split: option.splits)

lemma handleConfirmDelete_removed:
  assumes "songToDelete sc = Some d" "directoryHandle sc \<noteq> None"
    "0 \<le> d" "d < int (length (songs sc))"
  shows "handleConfirmDelete FsRemoved sc sn =
           (fst (removeLibraryIndex d sc sn)\<lparr>songToDelete := None\<rparr>,
            snd (removeLibraryIndex d sc sn))"
  using assms by (auto simp: handleConfirmDelete_def js_nth_def split_beta)

lemma queue_inv_handleConfirmDelete:
  assumes "queue_inv sc" "queue_inv sn"
  shows "queue_inv (fst (handleConfirmDelete fs sc sn))"
proof (cases "fs \<noteq> FsRemoved \<or> songToDelete sc = None \<or> directoryHandle sc = None \<or>
     js_nth (songs sc) (the (songToDelete sc)) = None")
  case True
  from handleConfirmDelete_unchanged [OF this, of sn] show ?thesis
    using assms(2) queue_inv_cong [OF assms(2), of "sn\<lparr>songToDelete := None\<rparr>"] by auto
next
  case False
  then obtain d where d: "songToDelete sc = Some d" "directoryHandle sc \<noteq> None" "fs = FsRemoved"
    "0 \<le> d" "d < int (length (songs sc))"
    by (auto simp: js_nth_def split: if_splits)
  show ?thesis unfolding d(3) handleConfirmDelete_removed [OF d(1,2,4,5)]
    using queue_inv_removeLibraryIndex [OF assms(1) d(4,5), of sn]
    by (auto elim: queue_inv_cong)
qed

section \<open>Reachable states satisfy the invariants\<close>

lemma reachable_queue_inv: "reachable s \<Longrightarrow> queue_inv s"
proof (induction rule: reachable.induct)
  case mount
  show ?case by (rule queue_inv_initial)
next
  case (load s saved newSongs)
  then show ?case by (intro queue_inv_processAudioFiles) auto
next
  case (restore s t newSongs time)
  then show ?case by (intro queue_inv_processAudioFiles) auto
next
  case (shuffle s shuffled)
  from shuffle.hyps(2) have "songs s \<noteq> []"
    by (auto simp: currentSong_def js_nth_def split: if_splits jsval.splits)
  with shuffle show ?case by (intro queue_inv_toggleShuffle)
qed (auto intro: queue_inv_playSong queue_inv_togglePlayPause queue_inv_playNext
      queue_inv_playPrev queue_inv_cycleRepeatMode queue_inv_handleConfirmDelete
      elim: queue_inv_cong)

lemma library_length: "length (library n) = n"
  by (simp add: library_def)

lemma loaded_fields:
  "n > 0 \<Longrightarrow> songs (loaded n) = library n"
  "n > 0 \<Longrightarrow> playQueue (loaded n) = map int [0 ..< n]"
  "n > 0 \<Longrightarrow> originalQueue (loaded n) = map int [0 ..< n]"
  "n > 0 \<Longrightarrow> currentSongIndex (loaded n) = JNum 0"
  "n > 0 \<Longrightarrow> isShuffled (loaded n) = False"
  "n > 0 \<Longrightarrow> repeatMode (loaded n) = Repeat_NONE"
  "n > 0 \<Longrightarrow> isPlaying (loaded n) = False"
  by (simp_all add: loaded_def processAudioFiles_def library_length initialize_fresh_def
      initialQueue_def initial_app_def Let_def)

lemma reachable_loaded: "reachable (loaded n)"
  unfolding loaded_def by (rule reachable.load [OF reachable.mount]) simp

lemma currentSong_loaded: "n > 0 \<Longrightarrow> currentSong (loaded n) \<noteq> None"
  by (simp add: currentSong_def loaded_fields js_index_def js_nth_def library_length
       nth_map_upt del: upt_Suc split: jsval.splits)

lemma currentSong_queue_inv:
  assumes "queue_inv s" "currentSongIndex s = JNum p"
  shows "currentSong s \<noteq> None"
  using assms(2) queue_inv_track(3,4,5) [OF assms]
  by (simp add: currentSong_def js_nth_def)

lemma playPrev_loaded: "n > 0 \<Longrightarrow> currentSongIndex (playPrev (loaded n)) = JNum (int n - 1)"
  using playPrev_JNum [of "loaded n" 0] by (simp add: loaded_fields)

lemma playNext_inc:
  assumes "currentSongIndex s = JNum p" "p + 1 < int (length (playQueue s))"
  shows "playNext s = s\<lparr>initialTime := 0, currentSongIndex := JNum (p + 1), isPlaying := True\<rparr>"
  using assms by (simp add: playNext_def js_add_def js_ge_def to_number_def Let_def)

lemma four_next_loaded:
  "(playNext ^^ 4) (loaded 5) =
     (loaded 5)\<lparr>initialTime := 0, currentSongIndex := JNum 4, isPlaying := True\<rparr>"
proof -
  have 1: "playNext (loaded 5) =
      (loaded 5)\<lparr>initialTime := 0, currentSongIndex := JNum 1, isPlaying := True\<rparr>"
    using playNext_inc [of "loaded 5" 0] by (simp add: loaded_fields)
  have 2: "playNext (playNext (loaded 5)) =
      (loaded 5)\<lparr>initialTime := 0, currentSongIndex := JNum 2, isPlaying := True\<rparr>"
    unfolding 1
    using playNext_inc [of "(loaded 5)\<lparr>initialTime := 0, currentSongIndex := JNum 1, isPlaying := True\<rparr>" 1]
    by (simp add: loaded_fields)
  have 3: "playNext (playNext (playNext (loaded 5))) =
      (loaded 5)\<lparr>initialTime := 0, currentSongIndex := JNum 3, isPlaying := True\<rparr>"
    unfolding 2
    using playNext_inc [of "(loaded 5)\<lparr>initialTime := 0, currentSongIndex := JNum 2, isPlaying := True\<rparr>" 2]
    by (simp add: loaded_fields)
  have 4: "playNext (playNext (playNext (playNext (loaded 5)))) =
      (loaded 5)\<lparr>initialTime := 0, currentSongIndex := JNum 4, isPlaying := True\<rparr>"
    unfolding 3
    using playNext_inc [of "(loaded 5)\<lparr>initialTime := 0, currentSongIndex := JNum 3, isPlaying := True\<rparr>" 3]
    by (simp add: loaded_fields)
  show ?thesis using 4 by (simp add: eval_nat_numeral)
qed

lemma filter_enumerate_eq:
  "map snd (filter (\<lambda>(index, _). int index \<noteq> d) (enumerate k xs)) =
     (if int k \<le> d \<and> d < int (k + length xs)
      then take (nat d - k) xs @ drop (Suc (nat d - k)) xs else xs)"
proof (induction xs arbitrary: k)
  case Nil
  then show ?case by simp
next
  case (Cons x xs)
  let ?f = "\<lambda>k xs. map snd (filter (\<lambda>(index, _). int index \<noteq> d) (enumerate k xs))"
  show ?case
  proof (cases "int k = d")
    case True
    then have "\<not> (int (Suc k) \<le> d \<and> d < int (Suc k + length xs))" by simp
    then have "?f (Suc k) xs = xs" using Cons.IH [of "Suc k"] by (simp only: if_False)
    then show ?thesis using True by simp
  next
    case False
    show ?thesis
    proof (cases "int k \<le> d \<and> d < int (k + length (x # xs))")
      case True
      with False have gt: "int (Suc k) \<le> d \<and> d < int (Suc k + length xs)" by auto
      then have ih: "?f (Suc k) xs = take (nat d - Suc k) xs @ drop (Suc (nat d - Suc k)) xs"
        using Cons.IH [of "Suc k"] by (simp only: if_True simp_thms)
      have e: "nat d - k = Suc (nat d - Suc k)" using gt by linarith
      have "?f k (x # xs) = x # ?f (Suc k) xs" using False by simp
      also have "\<dots> = take (nat d - k) (x # xs) @ drop (Suc (nat d - k)) (x # xs)"
        unfolding ih e by simp
      finally show ?thesis using True by (simp only: if_True simp_thms)
    next
      case F: False
      then have "\<not> (int (Suc k) \<le> d \<and> d < int (Suc k + length xs))" by auto
      then have ih: "?f (Suc k) xs = xs" using Cons.IH [of "Suc k"] by (simp only: if_False)
      have "?f k (x # xs) = x # ?f (Suc k) xs" using False by simp
      then show ?thesis using F ih by (simp only: if_False simp_thms)
    qed
  qed
qed

lemma filter_index_eq:
  "0 \<le> d \<Longrightarrow> d < int (length xs) \<Longrightarrow>
     filter_index d xs = take (nat d) xs @ drop (Suc (nat d)) xs"
  unfolding filter_index_def using filter_enumerate_eq [of d 0 xs] by simp

lemma filter_index_nth:
  assumes "0 \<le> d" "d < int (length xs)" "0 \<le> t" "t < int (length xs)" "t \<noteq> d"
  shows "filter_index d xs ! nat (if t > d then t - 1 else t) = xs ! nat t"
proof (cases "t > d")
  case True
  then have a: "\<not> nat (t - 1) < nat d" "nat (t - 1) - nat d + Suc (nat d) = nat t"
    using assms by linarith+
  have "min (length xs) (nat d) = nat d" using assms by linarith
  then show ?thesis using True assms a
    by (simp add: filter_index_eq nth_append)
next
  case False
  then have "nat t < nat d" using assms by linarith
  then show ?thesis using False assms by (simp add: filter_index_eq nth_append)
qed

lemma length_compact_perm:
  assumes "mset queue = mset (identity_order n)" "0 \<le> d" "d < int n"
  shows "length (compact d queue) = n - 1"
  using mset_eq_length [OF mset_compact_identity [OF assms]] by (simp add: length_identity_order)

lemma selected_removeLibraryIndex:
  "songs (fst (removeLibraryIndex d sc sn)) \<noteq> [] \<Longrightarrow>
     currentSongIndex (fst (removeLibraryIndex d sc sn)) \<noteq> JNull"
  by (auto simp: removeLibraryIndex_def Let_def js_rem_def split: option.splits if_splits)

lemma selected_handleConfirmDelete:
  assumes "songs sn \<noteq> [] \<longrightarrow> currentSongIndex sn \<noteq> JNull"
    and "songs (fst (handleConfirmDelete fs sc sn)) \<noteq> []"
  shows "currentSongIndex (fst (handleConfirmDelete fs sc sn)) \<noteq> JNull"
  using assms selected_removeLibraryIndex [of "the (songToDelete sc)" sc sn]
  by (cases fs) (auto simp: handleConfirmDelete_def split_beta split: option.splits if_splits)

lemma reachable_selected:
  "reachable s \<Longrightarrow> songs s \<noteq> [] \<Longrightarrow> currentSongIndex s \<noteq> JNull"
proof (induction rule: reachable.induct)
  case mount
  then show ?case by (simp add: initial_app_def)
next
  case (load s saved newSongs)
  then show ?case
    by (auto simp: processAudioFiles_def initialize_fresh_def Let_def split: if_splits)
next
  case (restore s t newSongs time)
  have "position_ok t" using reachable_queue_inv [OF restore.hyps(2)] by (simp add: queue_inv_def)
  then have "json_number (currentSongIndex t) \<noteq> JNull"
    using restore.hyps(3) by (simp add: json_number_position saves_def)
  with restore show ?case
    by (auto simp: processAudioFiles_def initialize_fresh_def stateToSave_def Let_def
        split: if_splits)
next
  case (select s index)
  then show ?case by (auto simp: playSong_def Let_def split: if_splits)
next
  case (play_pause s)
  then show ?case by (auto simp: togglePlayPause_def split: if_splits)
next
  case (play_next s)
  then show ?case
    by (auto simp: playNext_def js_add_def Let_def split: if_splits option.splits)
next
  case (play_prev s)
  then show ?case
    by (auto simp: playPrev_def js_rem_def Let_def split: if_splits option.splits)
next
  case (shuffle s shuffled)
  then show ?case by (auto simp: toggleShuffle_def Let_def split: if_splits)
next
  case (repeat s)
  then show ?case by (simp add: cycleRepeatMode_def)
next
  case (delete_confirm sc sn fs)
  then show ?case using selected_handleConfirmDelete [where sn = sn and fs = fs and sc = sc] by blast
qed simp_all

lemma indexOf_identity:
  "0 \<le> i \<Longrightarrow> i < int n \<Longrightarrow> indexOf (map int [0 ..< n]) (JNum i) = i"
  using indexOf_nth_distinct [of "map int [0 ..< n]" "nat i"]
  by (simp add: distinct_map inj_on_def)

lemma playSong_loaded:
  assumes "0 \<le> i" "i < int n"
  shows "songs (playSong i (loaded n)) = library n"
    "playQueue (playSong i (loaded n)) = map int [0 ..< n]"
    "originalQueue (playSong i (loaded n)) = map int [0 ..< n]"
    "currentSongIndex (playSong i (loaded n)) = JNum i"
    "isShuffled (playSong i (loaded n)) = False"
    "initialTime (playSong i (loaded n)) = 0"
proof -
  have n: "n > 0" using assms by linarith
  have k: "indexOf (playQueue (loaded n)) (JNum i) = i" "i \<noteq> - 1"
    using assms indexOf_identity [OF assms] by (simp_all add: loaded_fields n)
  have t: "initialTime (loaded n) = 0"
    using n by (simp add: loaded_def processAudioFiles_def library_length initialize_fresh_def Let_def)
  show "songs (playSong i (loaded n)) = library n"
    "playQueue (playSong i (loaded n)) = map int [0 ..< n]"
    "originalQueue (playSong i (loaded n)) = map int [0 ..< n]"
    "currentSongIndex (playSong i (loaded n)) = JNum i"
    "isShuffled (playSong i (loaded n)) = False"
    "initialTime (playSong i (loaded n)) = 0"
    using k t n by (simp_all add: playSong_def Let_def loaded_fields)
qed

lemma queue_inv_playSong_loaded: "queue_inv (playSong i (loaded n))"
  by (intro reachable_queue_inv reachable.select reachable_loaded)

lemma toggleShuffle_loaded:
  assumes "0 \<le> i" "i < int n"
  shows "toggleShuffle (map int [0 ..< n]) (playSong i (loaded n)) =
           (playSong i (loaded n))
             \<lparr>playQueue := (if i > 0 then swap_front (map int [0 ..< n]) (nat i)
                             else map int [0 ..< n]),
              currentSongIndex := JNum 0, isShuffled := True\<rparr>"
proof -
  note f = playSong_loaded [OF assms]
  have "toggleShuffle (map int [0 ..< n]) (playSong i (loaded n)) =
          (playSong i (loaded n))
             \<lparr>playQueue :=
                (if indexOf (map int [0 ..< n]) (JNum (playQueue (playSong i (loaded n)) ! nat i)) > 0
                 then swap_front (map int [0 ..< n])
                        (nat (indexOf (map int [0 ..< n]) (JNum (playQueue (playSong i (loaded n)) ! nat i))))
                 else map int [0 ..< n]),
              currentSongIndex := JNum 0, isShuffled := True\<rparr>"
    by (rule toggleShuffle_on [OF _ queue_inv_playSong_loaded]) (simp_all add: f)
  moreover have "playQueue (playSong i (loaded n)) ! nat i = i" using assms by (simp add: f)
  ultimately show ?thesis using indexOf_identity [OF assms] by simp
qed

lemma reachable_playSong_loaded: "reachable (playSong i (loaded n))"
  by (intro reachable.select reachable_loaded)

lemma currentSong_playSong_loaded:
  "0 \<le> i \<Longrightarrow> i < int n \<Longrightarrow> currentSong (playSong i (loaded n)) \<noteq> None"
  using currentSong_queue_inv [OF queue_inv_playSong_loaded, of i n i]
  by (simp add: playSong_loaded)

subsection \<open>The committed deletion follows the state at the click\<close>

text \<open>
  What a confirmed deletion writes, for a state at the click that satisfies the invariants:
  both orders of the click are compacted; the position is \<open>null\<close> when no track survives,
  the old position modulo the new length (with the start time reset) when the track that
  was current at the click is the deleted one, and otherwise the new offset of the track
  that was current at the click. The start time that is kept is the one of the state at
  completion.
\<close>

lemma delete_commit_follows_click:
  fixes sn :: app
  assumes inv: "queue_inv sc"
    and req: "songToDelete sc = Some d" "directoryHandle sc \<noteq> None"
    and d: "0 \<le> d" "d < int (length (songs sc))"
  defines "s' \<equiv> fst (handleConfirmDelete FsRemoved sc sn)"
  shows "originalQueue s' = map (\<lambda>i. if i > d then i - 1 else i) (filter (\<lambda>i. i \<noteq> d) (originalQueue sc)) \<and>
         playQueue s' = map (\<lambda>i. if i > d then i - 1 else i) (filter (\<lambda>i. i \<noteq> d) (playQueue sc)) \<and>
         length (songs s') = length (songs sc) - 1 \<and>
         (playQueue s' = [] \<longrightarrow> currentSongIndex s' = JNull) \<and>
         (\<forall>p. currentSongIndex sc = JNum p \<and> playQueue sc ! nat p = d \<and> playQueue s' \<noteq> [] \<longrightarrow>
              currentSongIndex s' = JNum (p mod int (length (playQueue s'))) \<and> initialTime s' = 0) \<and>
         (\<forall>p. currentSongIndex sc = JNum p \<and> playQueue sc ! nat p \<noteq> d \<longrightarrow>
              (\<exists>q. currentSongIndex s' = JNum q \<and> 0 \<le> q \<and> q < int (length (playQueue s')) \<and>
                   playQueue s' ! nat q =
                     (if playQueue sc ! nat p > d then playQueue sc ! nat p - 1 else playQueue sc ! nat p)) \<and>
              currentSong s' = currentSong sc \<and> initialTime s' = initialTime sn)"
proof -
  let ?n = "length (songs sc)"
  let ?r = "fst (removeLibraryIndex d sc sn)"
  have s': "s' = ?r\<lparr>songToDelete := None\<rparr>"
    unfolding s'_def using handleConfirmDelete_removed [OF req d] by simp
  have o: "mset (playQueue sc) = mset (identity_order ?n)"
    "mset (originalQueue sc) = mset (identity_order ?n)"
    using inv by (simp_all add: queue_inv_def orders_ok_mset)
  have lq: "length (compact d (playQueue sc)) = ?n - 1"
    "length (compact d (originalQueue sc)) = ?n - 1"
    using length_compact_perm [OF o(1) d] length_compact_perm [OF o(2) d] by simp_all
  have lf: "length (filter_index d (songs sc)) = ?n - 1" using d by (simp add: length_filter_index)
  show ?thesis
  proof (cases "?n - 1 = 0")
    case True
    then have e: "compact d (playQueue sc) = []" "compact d (originalQueue sc) = []"
      using lq by simp_all
    have n1: "?n = 1" using True d by linarith
    have "\<not> (currentSongIndex sc = JNum p \<and> playQueue sc ! nat p \<noteq> d)" for p
    proof
      assume a: "currentSongIndex sc = JNum p \<and> playQueue sc ! nat p \<noteq> d"
      then have "0 \<le> playQueue sc ! nat p" "playQueue sc ! nat p < int ?n"
        using queue_inv_track(4,5) [OF inv, of p] by simp_all
      then show False using a n1 d by linarith
    qed
    then show ?thesis
      using removeLibraryIndex_last [of d sc sn] lf True e n1
      by (simp add: s' compact_def)
  next
    case False
    then have ne: "length (filter_index d (songs sc)) \<noteq> 0" using lf by simp
    note f = removeLibraryIndex_fields [OF ne, of sn]
    have pq: "playQueue s' = compact d (playQueue sc)" "originalQueue s' = compact d (originalQueue sc)"
      "songs s' = filter_index d (songs sc)"
      by (simp_all add: s' f)
    have nonempty: "playQueue s' \<noteq> []" using lq(1) False by (auto simp: pq)
    have cur: "currentSongIndex s' = JNum (p mod int (length (playQueue s'))) \<and> initialTime s' = 0"
      if "currentSongIndex sc = JNum p" "playQueue sc ! nat p = d" for p
    proof -
      note tr = queue_inv_track [OF inv that(1)]
      have n: "currentSongIndex sc \<noteq> JNull" using that(1) by simp
      have "js_index (playQueue sc) (currentSongIndex sc) = JNum d" using tr(3) that(2) by simp
      from removeLibraryIndex_current(1,2) [OF ne this n, of sn] that(1) tr(1) False
      show ?thesis by (simp add: s' f lq js_rem_nonneg)
    qed
    have oth: "(\<exists>q. currentSongIndex s' = JNum q \<and> 0 \<le> q \<and> q < int (length (playQueue s')) \<and>
                   playQueue s' ! nat q =
                     (if playQueue sc ! nat p > d then playQueue sc ! nat p - 1 else playQueue sc ! nat p)) \<and>
              currentSong s' = currentSong sc \<and> initialTime s' = initialTime sn"
      if "currentSongIndex sc = JNum p" "playQueue sc ! nat p \<noteq> d" for p
    proof -
      note tr = queue_inv_track [OF inv that(1)]
      let ?t = "playQueue sc ! nat p"
      define u where "u = (if ?t > d then ?t - 1 else ?t)"
      define k where "k = indexOf (compact d (playQueue sc)) (JNum u)"
      have n: "currentSongIndex sc \<noteq> JNull" using that(1) by simp
      have mem: "u \<in> set (compact d (playQueue sc))"
        unfolding u_def using set_compact [OF tr(6) that(2)] .
      have k: "0 \<le> k" "k < int (length (compact d (playQueue sc)))"
        "compact d (playQueue sc) ! nat k = u"
        unfolding k_def using indexOf_present [OF mem] by simp_all
      have c: "currentSongIndex s' = JNum k" "initialTime s' = initialTime sn"
        using removeLibraryIndex_other(1,2) [OF ne tr(3) n that(2), of sn] k(1)
        by (simp_all add: s' Let_def k_def u_def)
      have u: "0 \<le> u" "u < int (length (filter_index d (songs sc)))"
        unfolding u_def lf using tr(4,5) that(2) d by (auto split: if_splits)
      have nth: "filter_index d (songs sc) ! nat u = songs sc ! nat ?t"
        unfolding u_def using filter_index_nth [OF d tr(4,5) that(2)] .
      have "currentSong s' = js_nth (filter_index d (songs sc)) u"
        using c(1) k by (simp add: currentSong_def pq js_index_def)
      also have "\<dots> = Some (songs sc ! nat ?t)" using u nth by (simp add: js_nth_def)
      also have "\<dots> = currentSong sc"
        using that(1) tr(3,4,5) by (simp add: currentSong_def js_nth_def)
      finally have cs: "currentSong s' = currentSong sc" .
      have "currentSongIndex s' = JNum k \<and> 0 \<le> k \<and> k < int (length (playQueue s')) \<and>
            playQueue s' ! nat k = (if ?t > d then ?t - 1 else ?t)"
        using c(1) k by (simp add: pq u_def)
      then show ?thesis using c(2) cs by blast
    qed
    show ?thesis using pq lf nonempty cur oth by (simp add: compact_def)
  qed
qed

section \<open>The claims\<close>

subsection \<open>C1\<close>

text \<open>
  C1. In every reachable state the play queue (the active order) and the original queue (the
  canonical order) are both permutations of the index list of the current library: sorting
  either gives \<open>[0 .. trackCount - 1]\<close>. Reachability is closed under loading, shuffling
  and deleting, so the property holds after each of them.
\<close>

theorem orders_are_permutations:
  "reachable s \<Longrightarrow>
     sort (playQueue s) = map int [0 ..< length (songs s)] \<and>
     sort (originalQueue s) = map int [0 ..< length (songs s)]"
  using reachable_queue_inv [of s] by (simp add: queue_inv_def orders_ok_def identity_order_def)

theorem orders_are_permutations_witness:
  "reachable (toggleShuffle [2, 0, 1] (loaded 3)) \<and>
   playQueue (toggleShuffle [2, 0, 1] (loaded 3)) = [0, 2, 1] \<and>
   sort (playQueue (toggleShuffle [2, 0, 1] (loaded 3))) = [0, 1, 2] \<and>
   sort (originalQueue (toggleShuffle [2, 0, 1] (loaded 3))) = [0, 1, 2]"
proof -
  have r: "reachable (toggleShuffle [2, 0, 1] (loaded 3))"
    by (rule reachable.shuffle [OF reachable_loaded currentSong_loaded])
       (simp_all add: loaded_fields eval_nat_numeral)
  have q: "playQueue (toggleShuffle [2, 0, 1] (loaded 3)) = [0, 2, 1]"
    by (simp add: toggleShuffle_def loaded_fields js_index_def indexOf_def swap_front_def
        Let_def eval_nat_numeral)
  have n: "length (songs (toggleShuffle [2, 0, 1] (loaded 3))) = 3"
    by (simp add: toggleShuffle_def loaded_fields library_length Let_def)
  show ?thesis using orders_are_permutations [OF r] r q
    by (simp add: n eval_nat_numeral)
qed

subsection \<open>C2\<close>

text \<open>
  C2. In every reachable state with a non-null position, the position is an offset into the
  play queue, \<open>0 \<le> position < length playQueue\<close>, the entry there is a library index below
  the number of tracks, and so \<open>currentSong\<close> is a track of the library. Reachability is
  closed under every handler (loading, next and previous, shuffle, selecting a song,
  deleting, play/pause), under the guards with which \<open>App\<close> renders their controls.
\<close>

theorem position_resolves_to_live_track:
  "reachable s \<Longrightarrow> currentSongIndex s \<noteq> JNull \<Longrightarrow>
     (\<exists>p. currentSongIndex s = JNum p \<and> 0 \<le> p \<and> p < int (length (playQueue s)) \<and>
          0 \<le> playQueue s ! nat p \<and> playQueue s ! nat p < int (length (songs s))) \<and>
     currentSong s \<noteq> None"
proof -
  assume r: "reachable s" and n: "currentSongIndex s \<noteq> JNull"
  have inv: "queue_inv s" using r by (rule reachable_queue_inv)
  from queue_inv_JNum [OF inv n] obtain p where p: "currentSongIndex s = JNum p" by blast
  show ?thesis using p queue_inv_track(1,2,4,5) [OF inv p] currentSong_queue_inv [OF inv p]
    by auto
qed

theorem position_resolves_to_live_track_witness:
  "reachable (playPrev (loaded 4)) \<and> currentSongIndex (playPrev (loaded 4)) = JNum 3 \<and>
   playQueue (playPrev (loaded 4)) ! 3 < int (length (songs (playPrev (loaded 4)))) \<and>
   currentSong (playPrev (loaded 4)) \<noteq> None"
proof -
  have r: "reachable (playPrev (loaded 4))"
    by (rule reachable.play_prev [OF reachable_loaded currentSong_loaded]) simp
  have p: "currentSongIndex (playPrev (loaded 4)) = JNum 3"
    using playPrev_loaded [of 4] by simp
  then have n: "currentSongIndex (playPrev (loaded 4)) \<noteq> JNull" by simp
  show ?thesis using position_resolves_to_live_track [OF r n] r p by auto
qed

subsection \<open>C3\<close>

text \<open>
  C3 on the code, where the claim fails. Three tracks are loaded, \<open>a\<close> is current, and the
  deletion of the third track is confirmed. While the file is being removed \<open>playNext\<close>
  runs (the next-track media key, or the current track ending) and makes \<open>aa\<close> current.
  \<open>aa\<close> is not the deleted track and its library index does not shift, so the position
  should go on pointing at it; the handler instead writes the offset of the track that was
  current at the click, and \<open>a\<close> becomes current.
\<close>

theorem delete_after_track_change_replaces_current_track:
  "reachable ((loaded 3)\<lparr>directoryHandle := Some ''Music'', songToDelete := Some 2\<rparr>) \<and>
   reachable (playNext ((loaded 3)\<lparr>directoryHandle := Some ''Music'', songToDelete := Some 2\<rparr>)) \<and>
   currentSongIndex
     (playNext ((loaded 3)\<lparr>directoryHandle := Some ''Music'', songToDelete := Some 2\<rparr>)) = JNum 1 \<and>
   playQueue
     (playNext ((loaded 3)\<lparr>directoryHandle := Some ''Music'', songToDelete := Some 2\<rparr>)) = [0, 1, 2] \<and>
   currentSong
     (playNext ((loaded 3)\<lparr>directoryHandle := Some ''Music'', songToDelete := Some 2\<rparr>))
     = Some (untagged ''aa'') \<and>
   playQueue (fst (handleConfirmDelete FsRemoved
      ((loaded 3)\<lparr>directoryHandle := Some ''Music'', songToDelete := Some 2\<rparr>)
      (playNext ((loaded 3)\<lparr>directoryHandle := Some ''Music'', songToDelete := Some 2\<rparr>))))
     = [0, 1] \<and>
   currentSongIndex (fst (handleConfirmDelete FsRemoved
      ((loaded 3)\<lparr>directoryHandle := Some ''Music'', songToDelete := Some 2\<rparr>)
      (playNext ((loaded 3)\<lparr>directoryHandle := Some ''Music'', songToDelete := Some 2\<rparr>))))
     = JNum 0 \<and>
   currentSong (fst (handleConfirmDelete FsRemoved
      ((loaded 3)\<lparr>directoryHandle := Some ''Music'', songToDelete := Some 2\<rparr>)
      (playNext ((loaded 3)\<lparr>directoryHandle := Some ''Music'', songToDelete := Some 2\<rparr>))))
     = Some (untagged ''a'')"
proof -
  let ?sc = "(loaded 3)\<lparr>directoryHandle := Some ''Music'', songToDelete := Some 2\<rparr>"
  let ?sn = "playNext ?sc"
  let ?s' = "fst (handleConfirmDelete FsRemoved ?sc ?sn)"
  have u: "map int [0 ..< 3] = [0, 1, 2]" by (simp add: eval_nat_numeral)
  have lib: "library 3 = [untagged ''a'', untagged ''aa'', untagged ''aaa'']"
    by (simp add: library_def eval_nat_numeral)
  have sc: "songs ?sc = library 3" "playQueue ?sc = [0, 1, 2]" "originalQueue ?sc = [0, 1, 2]"
    "currentSongIndex ?sc = JNum 0" "songToDelete ?sc = Some 2" "directoryHandle ?sc \<noteq> None"
    by (simp_all add: loaded_fields u)
  have rc: "reachable ?sc"
    by (intro reachable.delete_request reachable.set_handle reachable_loaded)
  have cs: "currentSong ?sc \<noteq> None"
    by (simp add: currentSong_def loaded_fields u js_index_def js_nth_def library_length)
  have rn: "reachable ?sn" using rc cs by (rule reachable.play_next)
  have sn: "?sn = ?sc\<lparr>initialTime := 0, currentSongIndex := JNum 1, isPlaying := True\<rparr>"
    using playNext_inc [of ?sc 0] by (simp add: sc)
  have n1: "currentSongIndex ?sn = JNum 1" "playQueue ?sn = [0, 1, 2]"
    by (simp_all add: sn loaded_fields u)
  have n2: "currentSong ?sn = Some (untagged ''aa'')"
    unfolding sn by (simp add: currentSong_def loaded_fields u js_index_def js_nth_def lib)
  have d: "(0::int) \<le> 2" "2 < int (length (songs ?sc))" by (simp_all add: sc library_length)
  have ne: "length (filter_index 2 (songs ?sc)) \<noteq> 0"
    by (simp add: length_filter_index sc library_length)
  have old: "js_index (playQueue ?sc) (currentSongIndex ?sc) = JNum 0"
    "currentSongIndex ?sc \<noteq> JNull" "(0::int) \<noteq> 2"
    by (simp_all add: sc js_index_def)
  have s': "?s' = (fst (removeLibraryIndex 2 ?sc ?sn))\<lparr>songToDelete := None\<rparr>"
    using handleConfirmDelete_removed [OF sc(5,6) d, of ?sn] by simp
  have q: "playQueue ?s' = [0, 1]"
    unfolding s' using removeLibraryIndex_fields(3) [OF ne, of ?sn]
    by (simp add: loaded_fields u compact_def)
  have p: "currentSongIndex ?s' = JNum 0"
    unfolding s' using removeLibraryIndex_other(1) [OF ne old, of ?sn]
    by (simp add: loaded_fields u compact_def indexOf_def Let_def)
  have l: "songs ?s' = [untagged ''a'', untagged ''aa'']"
    unfolding s' using removeLibraryIndex_fields(1) [OF ne, of ?sn] filter_index_eq [OF d]
    by (simp add: loaded_fields lib)
  have c: "currentSong ?s' = Some (untagged ''a'')"
    by (simp add: currentSong_def p q l js_index_def js_nth_def)
  show ?thesis using rc rn n1 n2 q p c by blast
qed

subsection \<open>C4\<close>

text \<open>
  C4. In a state that satisfies the invariants, with \<open>shuffled\<close> the rearrangement the sort
  returned: enabling shuffle makes the play queue a permutation of the original queue and
  sets the position to 0; with a current track, that track is at slot 0, exchanged with
  what the sort had put there. Disabling shuffle restores the original queue as the play
  queue and sets the position to the offset of the current track in it, or to 0 without a
  current track.
\<close>

theorem toggleShuffle_continuity:
  assumes inv: "queue_inv s" and sh: "mset shuffled = mset (originalQueue s)"
  defines "s' \<equiv> toggleShuffle shuffled s"
  shows "originalQueue s' = originalQueue s \<and> isShuffled s' = (\<not> isShuffled s) \<and>
    (\<not> isShuffled s \<longrightarrow>
       mset (playQueue s') = mset (originalQueue s) \<and> currentSongIndex s' = JNum 0 \<and>
       (\<forall>p. currentSongIndex s = JNum p \<longrightarrow>
            playQueue s' ! 0 = playQueue s ! nat p \<and>
            (\<exists>k<length shuffled. shuffled ! k = playQueue s ! nat p \<and>
                 playQueue s' = shuffled[0 := shuffled ! k, k := shuffled ! 0])) \<and>
       (currentSongIndex s = JNull \<longrightarrow> playQueue s' = shuffled)) \<and>
    (isShuffled s \<longrightarrow>
       playQueue s' = originalQueue s \<and>
       (\<forall>p. currentSongIndex s = JNum p \<longrightarrow>
            (\<exists>q. currentSongIndex s' = JNum q \<and> 0 \<le> q \<and> q < int (length (originalQueue s)) \<and>
                 originalQueue s ! nat q = playQueue s ! nat p)) \<and>
       (currentSongIndex s = JNull \<longrightarrow> currentSongIndex s' = JNum 0))"
proof -
  have basic: "originalQueue s' = originalQueue s" "isShuffled s' = (\<not> isShuffled s)"
    by (simp_all add: s'_def toggleShuffle_def Let_def)
  have on: "mset (playQueue s') = mset (originalQueue s) \<and> currentSongIndex s' = JNum 0"
    if "\<not> isShuffled s"
    using that sh mset_shuffle_queue [of shuffled]
    by (simp add: s'_def toggleShuffle_def Let_def)
  have on_track: "playQueue s' ! 0 = playQueue s ! nat p \<and>
            (\<exists>k<length shuffled. shuffled ! k = playQueue s ! nat p \<and>
                 playQueue s' = shuffled[0 := shuffled ! k, k := shuffled ! 0])"
    if off: "\<not> isShuffled s" and p: "currentSongIndex s = JNum p" for p
  proof -
    let ?t = "playQueue s ! nat p"
    define k where "k = indexOf shuffled (JNum ?t)"
    have "?t \<in> set (originalQueue s)" using queue_inv_track(7) [OF inv p] .
    then have mem: "?t \<in> set shuffled" using mset_eq_setD [OF sh] by simp
    have k: "0 \<le> k" "k < int (length shuffled)" "shuffled ! nat k = ?t"
      unfolding k_def using indexOf_present [OF mem] by simp_all
    have q: "playQueue s' = (if k > 0 then swap_front shuffled (nat k) else shuffled)"
      unfolding s'_def k_def using toggleShuffle_on [OF off inv p sh] by simp
    have hd: "playQueue s' ! 0 = ?t"
      unfolding q k_def using shuffled_queue_front(2) [OF mem] .
    have form: "playQueue s' = shuffled[0 := shuffled ! nat k, nat k := shuffled ! 0]"
    proof (cases "k > 0")
      case True
      then show ?thesis by (simp add: q swap_front_def)
    next
      case False
      then have "k = 0" using k(1) by simp
      then show ?thesis by (simp add: q)
    qed
    have "nat k < length shuffled" using k(1,2) by linarith
    then show ?thesis using hd form k(3) by blast
  qed
  have on_null: "playQueue s' = shuffled" if "\<not> isShuffled s" "currentSongIndex s = JNull"
    unfolding s'_def using toggleShuffle_on_null [OF that] by simp
  have off: "playQueue s' = originalQueue s" if "isShuffled s"
    using that by (simp add: s'_def toggleShuffle_def Let_def)
  have off_track: "\<exists>q. currentSongIndex s' = JNum q \<and> 0 \<le> q \<and>
        q < int (length (originalQueue s)) \<and> originalQueue s ! nat q = playQueue s ! nat p"
    if on: "isShuffled s" and p: "currentSongIndex s = JNum p" for p
  proof -
    have mem: "playQueue s ! nat p \<in> set (originalQueue s)"
      using queue_inv_track(7) [OF inv p] .
    show ?thesis
      unfolding s'_def using toggleShuffle_off [OF on inv p] indexOf_present [OF mem] by simp
  qed
  have off_null: "currentSongIndex s' = JNum 0" if "isShuffled s" "currentSongIndex s = JNull"
    unfolding s'_def using toggleShuffle_off_null [OF that] by simp
  show ?thesis
    using basic on on_track on_null off off_track off_null by blast
qed

theorem toggleShuffle_continuity_witness:
  "queue_inv (playSong 2 (loaded 5)) \<and>
   mset [4, 3, 2, 1, 0] = mset (originalQueue (playSong 2 (loaded 5))) \<and>
   playQueue (toggleShuffle [4, 3, 2, 1, 0] (playSong 2 (loaded 5))) ! 0 = 2 \<and>
   currentSongIndex (toggleShuffle [4, 3, 2, 1, 0] (playSong 2 (loaded 5))) = JNum 0"
proof -
  let ?p = "playSong 2 (loaded 5)"
  note f = playSong_loaded [of 2 5, simplified]
  have m: "mset [4, 3, 2, 1, 0] = mset (originalQueue ?p)"
    by (simp only: f) (simp add: eval_nat_numeral)
  have c: "currentSongIndex ?p = JNum 2" "playQueue ?p ! nat 2 = 2" "\<not> isShuffled ?p"
    by (simp_all add: f)
  show ?thesis
    using toggleShuffle_continuity [OF queue_inv_playSong_loaded m] c m
      queue_inv_playSong_loaded [of 2 5]
    by simp
qed

subsection \<open>C5\<close>

text \<open>
  C5. With the position at a valid offset \<open>p\<close>: \<open>playNext\<close> moves to \<open>p + 1\<close>; at the last
  offset it wraps to 0 when the repeat mode is ALL, and otherwise only stops playback, the
  position staying at the last offset. \<open>playPrev\<close> moves to \<open>(p - 1) mod length\<close>, from 0
  to the last offset, whatever the repeat mode.
\<close>

theorem advance_next_prev:
  assumes "currentSongIndex s = JNum p" "0 \<le> p" "p < int (length (playQueue s))"
  shows "(p + 1 < int (length (playQueue s)) \<longrightarrow>
            playNext s = s\<lparr>initialTime := 0, currentSongIndex := JNum (p + 1), isPlaying := True\<rparr>) \<and>
         (p + 1 = int (length (playQueue s)) \<and> repeatMode s = Repeat_ALL \<longrightarrow>
            playNext s = s\<lparr>initialTime := 0, currentSongIndex := JNum 0, isPlaying := True\<rparr>) \<and>
         (p + 1 = int (length (playQueue s)) \<and> repeatMode s \<noteq> Repeat_ALL \<longrightarrow>
            playNext s = s\<lparr>isPlaying := False\<rparr> \<and> currentSongIndex (playNext s) = JNum p) \<and>
         playPrev s = s\<lparr>initialTime := 0,
                        currentSongIndex := JNum ((p - 1) mod int (length (playQueue s))),
                        isPlaying := True\<rparr> \<and>
         (p = 0 \<longrightarrow> currentSongIndex (playPrev s) = JNum (int (length (playQueue s)) - 1))"
proof -
  let ?n = "int (length (playQueue s))"
  have nx: "playNext s =
      (if p + 1 \<ge> ?n then
         (if repeatMode s = Repeat_ALL
          then s\<lparr>initialTime := 0, currentSongIndex := JNum 0, isPlaying := True\<rparr>
          else s\<lparr>isPlaying := False\<rparr>)
       else s\<lparr>initialTime := 0, currentSongIndex := JNum (p + 1), isPlaying := True\<rparr>)"
    using assms(1) by (simp add: playNext_def js_add_def js_ge_def to_number_def Let_def)
  have pv: "currentSongIndex (playPrev s) = JNum (if p = 0 then ?n - 1 else p - 1)"
    using playPrev_JNum [OF assms] .
  have md: "(p - 1) mod ?n = (if p = 0 then ?n - 1 else p - 1)"
  proof (cases "p = 0")
    case True
    have "(- 1) mod ?n = ?n - 1" using assms(2,3) True by (simp add: zmod_minus1)
    then show ?thesis using True by simp
  next
    case False
    then show ?thesis using assms by (simp add: mod_pos_pos_trivial)
  qed
  have pe: "playPrev s = s\<lparr>initialTime := 0, currentSongIndex := currentSongIndex (playPrev s),
                              isPlaying := True\<rparr>"
    using assms(1) by (simp add: playPrev_def Let_def)
  have "playPrev s = s\<lparr>initialTime := 0, currentSongIndex := JNum ((p - 1) mod ?n),
                         isPlaying := True\<rparr>"
    using pe pv md by simp
  then show ?thesis using nx pv assms(1) by simp
qed

theorem advance_next_prev_witness:
  "currentSongIndex ((playNext ^^ 4) (loaded 5)) = JNum 4 \<and>
   playNext ((playNext ^^ 4) (loaded 5)) = ((playNext ^^ 4) (loaded 5))\<lparr>isPlaying := False\<rparr> \<and>
   currentSongIndex (playNext (cycleRepeatMode ((playNext ^^ 4) (loaded 5)))) = JNum 0 \<and>
   currentSongIndex (playPrev (loaded 5)) = JNum 4"
proof -
  let ?s = "(playNext ^^ 4) (loaded 5)"
  have a: "currentSongIndex ?s = JNum 4" "int (length (playQueue ?s)) = 5"
    "repeatMode ?s = Repeat_NONE"
    by (simp_all add: four_next_loaded loaded_fields)
  have b: "currentSongIndex (cycleRepeatMode ?s) = JNum 4"
    "int (length (playQueue (cycleRepeatMode ?s))) = 5"
    "repeatMode (cycleRepeatMode ?s) = Repeat_ALL"
    using a by (simp_all add: cycleRepeatMode_def)
  have c: "currentSongIndex (loaded 5) = JNum 0" "int (length (playQueue (loaded 5))) = 5"
    by (simp_all add: loaded_fields)
  show ?thesis
    using advance_next_prev [of ?s 4] advance_next_prev [of "cycleRepeatMode ?s" 4]
      advance_next_prev [of "loaded 5" 0] a b c
    by simp
qed

subsection \<open>C6\<close>

text \<open>
  C6, as the code has it. When the scan found at least one file and the stored state has
  the song count of the new library, \<open>processAudioFiles\<close> overlays the stored play queue,
  original queue, position, shuffle flag, repeat mode and time, and the stored playback rate
  with 0 read as 1, and leaves playback paused. When the counts differ the stored state is
  discarded, with the result of a load that found nothing stored: position 0, both orders
  the index list of the new library, paused, start time 0 and rate 1.
\<close>

theorem reconcile_snapshot:
  fixes sv :: snapshot and s :: app
  assumes "newSongs \<noteq> []"
  defines "s' \<equiv> fst (processAudioFiles newSongs (Stored sv) s)"
  shows "(saved_songCount sv = int (length newSongs) \<longrightarrow>
            s' = s\<lparr>songs := newSongs,
                   playQueue := saved_playQueue sv,
                   originalQueue := saved_originalQueue sv,
                   currentSongIndex := saved_currentSongIndex sv,
                   isShuffled := saved_isShuffled sv,
                   repeatMode := saved_repeatMode sv,
                   initialTime := saved_currentTime sv,
                   playbackRate := (if saved_playbackRate sv = 0 then 1 else saved_playbackRate sv),
                   isPlaying := False\<rparr>) \<and>
         (saved_songCount sv \<noteq> int (length newSongs) \<longrightarrow>
            s' = fst (processAudioFiles newSongs Absent s) \<and>
            songs s' = newSongs \<and>
            playQueue s' = map int [0 ..< length newSongs] \<and>
            originalQueue s' = map int [0 ..< length newSongs] \<and>
            currentSongIndex s' = JNum 0 \<and> \<not> isPlaying s' \<and>
            initialTime s' = 0 \<and> playbackRate s' = 1)"
  using assms(1)
  by (simp add: s'_def processAudioFiles_def initialize_fresh_def initialQueue_def js_or_def Let_def)

theorem reconcile_snapshot_witness:
  "fst (processAudioFiles (library 2) (Stored (stateToSave (playSong 1 (loaded 2)) 42)) initial_app)
     = initial_app\<lparr>songs := library 2, playQueue := [0, 1], originalQueue := [0, 1],
                    currentSongIndex := JNum 1, initialTime := 42\<rparr> \<and>
   playQueue (fst (processAudioFiles (library 9) (Stored (stateToSave (loaded 10) 0)) initial_app))
     = map int [0 ..< 9] \<and>
   currentSongIndex (fst (processAudioFiles (library 9) (Stored (stateToSave (loaded 10) 0)) initial_app))
     = JNum 0"
proof -
  let ?sv = "stateToSave (playSong 1 (loaded 2)) 42"
  let ?old = "stateToSave (loaded 10) 0"
  note f = playSong_loaded [of 1 2, simplified]
  have u: "map int [0 ..< 2] = [0, 1]" by (simp add: eval_nat_numeral)
  have rp: "repeatMode (playSong 1 (loaded 2)) = Repeat_NONE"
    "playbackRate (playSong 1 (loaded 2)) = 1"
    by (simp_all add: playSong_def Let_def loaded_def processAudioFiles_def library_length
        initialize_fresh_def initial_app_def)
  have sv: "saved_songCount ?sv = int (length (library 2))" "saved_playQueue ?sv = [0, 1]"
    "saved_originalQueue ?sv = [0, 1]" "saved_currentSongIndex ?sv = JNum 1"
    "saved_isShuffled ?sv = False" "saved_repeatMode ?sv = Repeat_NONE"
    "saved_playbackRate ?sv = 1" "saved_currentTime ?sv = 42"
    by (simp_all add: stateToSave_def f u rp library_length json_number_def)
  have old: "saved_songCount ?old \<noteq> int (length (library 9))"
    by (simp add: stateToSave_def loaded_fields library_length)
  have ne: "library 2 \<noteq> []" "library 9 \<noteq> []"
    using library_length [of 2] library_length [of 9] by auto
  have i: "isPlaying initial_app = False" "isShuffled initial_app = False"
    "repeatMode initial_app = Repeat_NONE" "playbackRate initial_app = 1"
    by (simp_all add: initial_app_def)
  have a: "fst (processAudioFiles (library 2) (Stored ?sv) initial_app)
     = initial_app\<lparr>songs := library 2, playQueue := [0, 1], originalQueue := [0, 1],
                    currentSongIndex := JNum 1, initialTime := 42\<rparr>"
    using reconcile_snapshot [OF ne(1), of ?sv initial_app] sv
    by (simp add: initial_app_def)
  have b: "playQueue (fst (processAudioFiles (library 9) (Stored ?old) initial_app)) = map int [0 ..< 9] \<and>
     currentSongIndex (fst (processAudioFiles (library 9) (Stored ?old) initial_app)) = JNum 0"
    using reconcile_snapshot [OF ne(2), of ?old initial_app, THEN conjunct2, THEN mp, OF old,
        THEN conjunct2]
    by (simp add: library_length)
  show ?thesis using a b by blast
qed

text \<open>
  C6 as stated fails twice. A load that discards the stored state into a state with shuffle
  on leaves the shuffle flag on, over identity orders; and a stored playback rate of 0 is
  replaced by 1.
\<close>

theorem reconcile_keeps_shuffle_flag:
  "saved_songCount (stateToSave (toggleShuffle [0, 1] (playSong 1 (loaded 2))) 0)
     \<noteq> int (length (library 3)) \<and>
   isShuffled (fst (processAudioFiles (library 3)
      (Stored (stateToSave (toggleShuffle [0, 1] (playSong 1 (loaded 2))) 0))
      (toggleShuffle [0, 1] (playSong 1 (loaded 2))))) \<and>
   playQueue (fst (processAudioFiles (library 3)
      (Stored (stateToSave (toggleShuffle [0, 1] (playSong 1 (loaded 2))) 0))
      (toggleShuffle [0, 1] (playSong 1 (loaded 2))))) = [0, 1, 2] \<and>
   saved_songCount ((stateToSave (loaded 2) 0)\<lparr>saved_playbackRate := 0\<rparr>)
     = int (length (library 2)) \<and>
   playbackRate (fst (processAudioFiles (library 2)
      (Stored ((stateToSave (loaded 2) 0)\<lparr>saved_playbackRate := 0\<rparr>)) initial_app))
     \<noteq> saved_playbackRate ((stateToSave (loaded 2) 0)\<lparr>saved_playbackRate := 0\<rparr>)"
proof -
  let ?p = "playSong 1 (loaded 2)"
  let ?s = "toggleShuffle [0, 1] ?p"
  note f = playSong_loaded [of 1 2, simplified]
  have u: "map int [0 ..< 2] = [0, 1]" "map int [0 ..< 3] = [0, 1, 2]"
    by (simp_all add: eval_nat_numeral)
  have s: "?s = ?p\<lparr>playQueue := [1, 0], currentSongIndex := JNum 0, isShuffled := True\<rparr>"
    using toggleShuffle_loaded [of 1 2] by (simp add: u swap_front_def)
  have c: "saved_songCount (stateToSave ?s 0) = 2"
    by (simp add: stateToSave_def s f library_length)
  have l: "length (library 3) = 3" "length (library 2) = 2" by (simp_all add: library_length)
  have a: "isShuffled (fst (processAudioFiles (library 3) (Stored (stateToSave ?s 0)) ?s))"
    "playQueue (fst (processAudioFiles (library 3) (Stored (stateToSave ?s 0)) ?s)) = [0, 1, 2]"
    using c l by (simp_all add: processAudioFiles_def initialize_fresh_def initialQueue_def
        Let_def s u)
  have b: "saved_songCount ((stateToSave (loaded 2) 0)\<lparr>saved_playbackRate := 0\<rparr>) = 2"
    "saved_playbackRate ((stateToSave (loaded 2) 0)\<lparr>saved_playbackRate := 0\<rparr>) = 0"
    by (simp_all add: stateToSave_def loaded_fields library_length)
  have d: "playbackRate (fst (processAudioFiles (library 2)
      (Stored ((stateToSave (loaded 2) 0)\<lparr>saved_playbackRate := 0\<rparr>)) initial_app)) = 1"
    using b l by (simp add: processAudioFiles_def Let_def js_or_def)
  show ?thesis using a b c d l by simp
qed

subsection \<open>C7\<close>

text \<open>
  C7. Deleting a track is two-phase: unless the file system reports the entry removed, the
  handler changes nothing but the pending request \<open>songToDelete\<close> (songs, both orders,
  position and flags are as they are when it completes, whatever ran during its awaits),
  and for a pending request on a track of the library the user gets an alert.
\<close>

theorem failed_delete_leaves_queue:
  assumes "fs \<noteq> FsRemoved"
  shows "(fst (handleConfirmDelete fs sc sn))\<lparr>songToDelete := songToDelete sn\<rparr> = sn \<and>
         (songToDelete sc = Some d \<and> directoryHandle sc \<noteq> None \<and>
          0 \<le> d \<and> d < int (length (songs sc)) \<longrightarrow>
            (\<exists>message. snd (handleConfirmDelete fs sc sn) = [Alert message]))"
  using assms
  by (cases fs) (auto simp: handleConfirmDelete_def js_nth_def split: option.splits)

theorem failed_delete_leaves_queue_witness:
  "songs (fst (handleConfirmDelete FsError
     ((loaded 3)\<lparr>directoryHandle := Some ''Music'', songToDelete := Some 1\<rparr>)
     ((loaded 3)\<lparr>directoryHandle := Some ''Music'', songToDelete := Some 1\<rparr>))) = library 3 \<and>
   playQueue (fst (handleConfirmDelete FsError
     ((loaded 3)\<lparr>directoryHandle := Some ''Music'', songToDelete := Some 1\<rparr>)
     ((loaded 3)\<lparr>directoryHandle := Some ''Music'', songToDelete := Some 1\<rparr>))) = [0, 1, 2] \<and>
   currentSongIndex (fst (handleConfirmDelete PermissionRefused
     ((loaded 3)\<lparr>directoryHandle := Some ''Music'', songToDelete := Some 1\<rparr>)
     (playNext ((loaded 3)\<lparr>directoryHandle := Some ''Music'', songToDelete := Some 1\<rparr>)))) = JNum 1 \<and>
   (\<exists>message. snd (handleConfirmDelete FsError
     ((loaded 3)\<lparr>directoryHandle := Some ''Music'', songToDelete := Some 1\<rparr>)
     ((loaded 3)\<lparr>directoryHandle := Some ''Music'', songToDelete := Some 1\<rparr>)) = [Alert message])"
proof -
  let ?s = "(loaded 3)\<lparr>directoryHandle := Some ''Music'', songToDelete := Some 1\<rparr>"
  let ?n = "playNext ?s"
  have h: "songToDelete ?s = Some 1 \<and> directoryHandle ?s \<noteq> None \<and> (0::int) \<le> 1 \<and>
           1 < int (length (songs ?s))"
    by (simp add: loaded_fields library_length)
  have n: "currentSongIndex ?n = JNum 1"
    using playNext_inc [of ?s 0] by (simp add: loaded_fields)
  have e: "(fst (handleConfirmDelete FsError ?s ?s))\<lparr>songToDelete := songToDelete ?s\<rparr> = ?s"
    and m: "\<exists>message. snd (handleConfirmDelete FsError ?s ?s) = [Alert message]"
    using failed_delete_leaves_queue [where fs = FsError and sc = ?s and sn = ?s and d = 1] h by blast+
  have r: "(fst (handleConfirmDelete PermissionRefused ?s ?n))\<lparr>songToDelete := songToDelete ?n\<rparr> = ?n"
    using failed_delete_leaves_queue [where fs = PermissionRefused and sc = ?s and sn = ?n and d = 1] by blast
  have "songs ((fst (handleConfirmDelete FsError ?s ?s))\<lparr>songToDelete := songToDelete ?s\<rparr>) = songs ?s"
    "playQueue ((fst (handleConfirmDelete FsError ?s ?s))\<lparr>songToDelete := songToDelete ?s\<rparr>) = playQueue ?s"
    "currentSongIndex ((fst (handleConfirmDelete PermissionRefused ?s ?n))\<lparr>songToDelete := songToDelete ?n\<rparr>)
       = currentSongIndex ?n"
    by (simp_all only: e r)
  then show ?thesis using m n by (simp add: loaded_fields eval_nat_numeral)
qed

subsection \<open>C8\<close>

text \<open>
  C8, as the code has it. In a reachable state with a non-empty library and shuffle off,
  two calls of \<open>toggleShuffle\<close> in a row, whatever the sort returns, end with the play queue
  equal to the original queue, shuffle off, and a position that points at the track that
  was current before, so that \<open>currentSong\<close> is unchanged.
\<close>

theorem toggleShuffle_twice_restores:
  fixes shuffled' :: "int list"
  assumes r: "reachable s" and ne: "songs s \<noteq> []" and off: "\<not> isShuffled s"
    and sh: "mset shuffled = mset (originalQueue s)"
  defines "s2 \<equiv> toggleShuffle shuffled' (toggleShuffle shuffled s)"
  shows "playQueue s2 = originalQueue s2 \<and> originalQueue s2 = originalQueue s \<and>
         \<not> isShuffled s2 \<and>
         (\<exists>p q. currentSongIndex s = JNum p \<and> currentSongIndex s2 = JNum q \<and>
                0 \<le> q \<and> q < int (length (playQueue s2)) \<and>
                playQueue s2 ! nat q = playQueue s ! nat p) \<and>
         currentSong s2 = currentSong s"
proof -
  have inv: "queue_inv s" using r by (rule reachable_queue_inv)
  have "currentSongIndex s \<noteq> JNull" using reachable_selected [OF r ne] .
  from queue_inv_JNum [OF inv this] obtain p where p: "currentSongIndex s = JNum p" by blast
  note tr = queue_inv_track [OF inv p]
  let ?t = "playQueue s ! nat p"
  define s1 where "s1 = toggleShuffle shuffled s"
  have inv1: "queue_inv s1" unfolding s1_def using queue_inv_toggleShuffle [OF inv ne sh] .
  have mem: "?t \<in> set shuffled" using tr(7) mset_eq_setD [OF sh] by simp
  have s1: "isShuffled s1" "currentSongIndex s1 = JNum 0" "originalQueue s1 = originalQueue s"
    "songs s1 = songs s" "playQueue s1 ! 0 = ?t"
    unfolding s1_def toggleShuffle_on [OF off inv p sh]
    using shuffled_queue_front(2) [OF mem] by simp_all
  have s2: "s2 = s1\<lparr>playQueue := originalQueue s1,
             currentSongIndex := JNum (indexOf (originalQueue s1) (JNum (playQueue s1 ! 0))),
             isShuffled := False\<rparr>"
    unfolding s2_def s1_def [symmetric] using toggleShuffle_off [OF s1(1) inv1 s1(2)] by simp
  define q where "q = indexOf (originalQueue s) (JNum ?t)"
  have q: "0 \<le> q" "q < int (length (originalQueue s))" "originalQueue s ! nat q = ?t"
    unfolding q_def using indexOf_present [OF tr(7)] by simp_all
  have f: "playQueue s2 = originalQueue s" "originalQueue s2 = originalQueue s"
    "\<not> isShuffled s2" "currentSongIndex s2 = JNum q" "songs s2 = songs s"
    by (simp_all add: s2 s1 q_def)
  have "currentSong s2 = js_nth (songs s) ?t"
    using q by (simp add: currentSong_def f js_index_def)
  also have "\<dots> = currentSong s"
    using p tr(3) by (simp add: currentSong_def)
  finally have cs: "currentSong s2 = currentSong s" .
  have "currentSongIndex s = JNum p \<and> currentSongIndex s2 = JNum q \<and>
        0 \<le> q \<and> q < int (length (playQueue s2)) \<and> playQueue s2 ! nat q = ?t"
    using p q by (simp add: f)
  then show ?thesis using f cs by (simp only: simp_thms) blast
qed

theorem toggleShuffle_twice_restores_witness:
  "reachable (playSong 1 (loaded 3)) \<and> songs (playSong 1 (loaded 3)) \<noteq> [] \<and>
   \<not> isShuffled (playSong 1 (loaded 3)) \<and>
   playQueue (toggleShuffle [0, 1, 2] (toggleShuffle [2, 1, 0] (playSong 1 (loaded 3)))) = [0, 1, 2] \<and>
   currentSong (toggleShuffle [0, 1, 2] (toggleShuffle [2, 1, 0] (playSong 1 (loaded 3))))
     = currentSong (playSong 1 (loaded 3))"
proof -
  let ?p = "playSong 1 (loaded 3)"
  note f = playSong_loaded [of 1 3, simplified]
  have h: "songs ?p \<noteq> []" "\<not> isShuffled ?p"
    using library_length [of 3] by (auto simp: f)
  have m: "mset [2, 1, 0] = mset (originalQueue ?p)"
    by (simp only: f) (simp add: eval_nat_numeral)
  have o: "originalQueue ?p = [0, 1, 2]"
    by (simp only: f) (simp add: eval_nat_numeral)
  show ?thesis
    using toggleShuffle_twice_restores [OF reachable_playSong_loaded h m, of "[0, 1, 2]"]
      reachable_playSong_loaded [of 1 3] h o
    by simp
qed

text \<open>
  C8 as stated fails when shuffle is on before the two calls: the first call restores the
  original queue and the second shuffles again, moving the current track to slot 0.
\<close>

theorem toggleShuffle_twice_from_shuffled:
  "reachable (toggleShuffle [0, 1] (playSong 1 (loaded 2))) \<and>
   songs (toggleShuffle [0, 1] (playSong 1 (loaded 2))) \<noteq> [] \<and>
   mset [0, 1] = mset (originalQueue (toggleShuffle [0, 1] (playSong 1 (loaded 2)))) \<and>
   playQueue (toggleShuffle [0, 1] (toggleShuffle [0, 1]
      (toggleShuffle [0, 1] (playSong 1 (loaded 2))))) = [1, 0] \<and>
   originalQueue (toggleShuffle [0, 1] (toggleShuffle [0, 1]
      (toggleShuffle [0, 1] (playSong 1 (loaded 2))))) = [0, 1] \<and>
   playQueue (toggleShuffle [0, 1] (toggleShuffle [0, 1]
      (toggleShuffle [0, 1] (playSong 1 (loaded 2)))))
     \<noteq> originalQueue (toggleShuffle [0, 1] (toggleShuffle [0, 1]
      (toggleShuffle [0, 1] (playSong 1 (loaded 2)))))"
proof -
  let ?p = "playSong 1 (loaded 2)"
  let ?s = "toggleShuffle [0, 1] ?p"
  note f = playSong_loaded [of 1 2, simplified]
  have u: "map int [0 ..< 2] = [0, 1]" by (simp add: eval_nat_numeral)
  have s: "?s = ?p\<lparr>playQueue := [1, 0], currentSongIndex := JNum 0, isShuffled := True\<rparr>"
    using toggleShuffle_loaded [of 1 2] by (simp add: u swap_front_def)
  have o: "originalQueue ?p = [0, 1]" by (simp only: f u)
  have r: "reachable ?s"
    by (rule reachable.shuffle [OF reachable_playSong_loaded currentSong_playSong_loaded])
       (simp_all add: o)
  have n: "songs ?s \<noteq> []" using library_length [of 2] by (auto simp: s f)
  have t1: "toggleShuffle [0, 1] ?s =
      ?p\<lparr>playQueue := [0, 1], currentSongIndex := JNum 1, isShuffled := False\<rparr>"
    unfolding s by (simp add: toggleShuffle_def Let_def js_index_def indexOf_def o)
  have t2: "playQueue (toggleShuffle [0, 1] (toggleShuffle [0, 1] ?s)) = [1, 0]"
    "originalQueue (toggleShuffle [0, 1] (toggleShuffle [0, 1] ?s)) = [0, 1]"
    unfolding t1
    by (simp_all add: toggleShuffle_def Let_def js_index_def indexOf_def swap_front_def o)
  show ?thesis using r n t2 by (simp add: s o)
qed

subsection \<open>C9\<close>

text \<open>
  C9, as the code has it. On the empty model (no songs, no position) \<open>playNext\<close> and
  \<open>playPrev\<close> change nothing; \<open>togglePlayPause\<close> leaves songs, orders, position and modes
  alone but inverts the playing flag. None of them can throw.
\<close>

theorem empty_model_controls:
  "songs s = [] \<Longrightarrow> currentSongIndex s = JNull \<Longrightarrow>
     playNext s = s \<and> playPrev s = s \<and>
     togglePlayPause s = s\<lparr>isPlaying := \<not> isPlaying s\<rparr>"
  by (simp add: playNext_def playPrev_def togglePlayPause_def)

theorem empty_model_controls_witness:
  "songs initial_app = [] \<and> currentSongIndex initial_app = JNull \<and>
   playNext initial_app = initial_app \<and> playPrev initial_app = initial_app \<and>
   togglePlayPause initial_app = initial_app\<lparr>isPlaying := True\<rparr>"
proof -
  have e: "songs initial_app = []" "currentSongIndex initial_app = JNull"
    "isPlaying initial_app = False"
    by (simp_all add: initial_app_def)
  show ?thesis using empty_model_controls [OF e(1,2)] e by simp
qed

text \<open>
  C9 as stated fails: on the empty model \<open>togglePlayPause\<close> changes the playing flag.
\<close>

theorem play_toggles_on_empty_model:
  "songs initial_app = [] \<and> playQueue initial_app = [] \<and> originalQueue initial_app = [] \<and>
   currentSongIndex initial_app = JNull \<and>
   isPlaying (togglePlayPause initial_app) \<noteq> isPlaying initial_app"
  by (simp add: initial_app_def togglePlayPause_def)

subsection \<open>C10\<close>

text \<open>
  C10. When a track is deleted while the position is \<open>null\<close> (at the click, where the
  handler reads it) and at least one track survives, the new position is 0, whatever the
  state has become when the handler completes.
\<close>

theorem delete_without_selection_selects_first:
  assumes "songToDelete sc = Some d" "directoryHandle sc \<noteq> None"
    and "0 \<le> d" "d < int (length (songs sc))" "2 \<le> length (songs sc)"
    and "currentSongIndex sc = JNull"
  shows "currentSongIndex (fst (handleConfirmDelete FsRemoved sc sn)) = JNum 0 \<and>
         length (songs (fst (handleConfirmDelete FsRemoved sc sn))) = length (songs sc) - 1"
proof -
  have ne: "length (filter_index d (songs sc)) \<noteq> 0"
    using assms(3,4,5) by (simp add: length_filter_index)
  show ?thesis
    using handleConfirmDelete_removed [OF assms(1-4), of sn]
      removeLibraryIndex_null(1) [OF ne assms(6), of sn]
      removeLibraryIndex_fields(1) [OF ne, of sn] assms(3,4)
    by (simp add: length_filter_index)
qed

theorem delete_without_selection_selects_first_witness:
  "currentSongIndex
     (fst (handleConfirmDelete FsRemoved
        ((loaded 3)\<lparr>currentSongIndex := JNull, directoryHandle := Some ''Music'',
                    songToDelete := Some 1\<rparr>)
        ((loaded 3)\<lparr>currentSongIndex := JNull, directoryHandle := Some ''Music'',
                    songToDelete := Some 1\<rparr>))) = JNum 0 \<and>
   playQueue
     (fst (handleConfirmDelete FsRemoved
        ((loaded 3)\<lparr>currentSongIndex := JNull, directoryHandle := Some ''Music'',
                    songToDelete := Some 1\<rparr>)
        ((loaded 3)\<lparr>currentSongIndex := JNull, directoryHandle := Some ''Music'',
                    songToDelete := Some 1\<rparr>))) = [0, 1]"
proof -
  let ?s = "(loaded 3)\<lparr>currentSongIndex := JNull, directoryHandle := Some ''Music'',
                        songToDelete := Some 1\<rparr>"
  have h: "songToDelete ?s = Some 1" "directoryHandle ?s \<noteq> None" "(0::int) \<le> 1"
    "1 < int (length (songs ?s))" "2 \<le> length (songs ?s)" "currentSongIndex ?s = JNull"
    by (simp_all add: loaded_fields library_length)
  have ne: "length (filter_index 1 (songs ?s)) \<noteq> 0"
    by (simp add: length_filter_index loaded_fields library_length)
  have q: "playQueue (fst (handleConfirmDelete FsRemoved ?s ?s)) = [0, 1]"
    using handleConfirmDelete_removed [OF h(1-4), of ?s] removeLibraryIndex_fields(3) [OF ne, of ?s]
    by (simp add: loaded_fields compact_def eval_nat_numeral)
  show ?thesis using delete_without_selection_selects_first [OF h, where sn = ?s] q by simp
qed

end
